theory Spec2Isabelle
  imports Main "HOL-Library.Char_ord" "HOL-Library.List_Lexorder" "HOL-Library.Multiset"
begin

section \<open>Python values, errors and string operations\<close>

text \<open>
  The generator \<^verbatim>\<open>scripts/gen.py\<close> is a Python 2 program. Exceptions are values of
  \<open>error\<close>; a function that may raise returns \<open>error + 'a\<close> with \<open>Inl\<close> the exception.
  \<open>RecursionError\<close> stands for the interpreter's "maximum recursion depth exceeded".
  Strings are byte strings; \<^verbatim>\<open>sorted\<close> on strings is the lexicographic order of
  the list instance over the character order.
\<close>

datatype error = KeyError | TypeError | AttributeError | RecursionError

definition bind_err :: "error + 'a \<Rightarrow> ('a \<Rightarrow> error + 'b) \<Rightarrow> error + 'b" where
  "bind_err r k = (case r of Inl e \<Rightarrow> Inl e | Inr v \<Rightarrow> k v)"

text \<open>\<^verbatim>\<open>d[k]\<close> on a dict held as an association list.\<close>

definition getitem :: "(string \<times> 'v) list \<Rightarrow> string \<Rightarrow> error + 'v" where
  "getitem d k = (case map_of d k of None \<Rightarrow> Inl KeyError | Some v \<Rightarrow> Inr v)"

text \<open>\<^verbatim>\<open>try: return v  except KeyError: return None\<close>: only KeyError is caught.\<close>

definition except_KeyError :: "error + 'a \<Rightarrow> error + 'a option" where
  "except_KeyError r =
     (case r of Inl e \<Rightarrow> (if e = KeyError then Inr None else Inl e) | Inr v \<Rightarrow> Inr (Some v))"

text \<open>\<^verbatim>\<open>s.lstrip(chars)\<close> removes leading characters that occur in \<open>chars\<close>.\<close>

definition lstrip :: "string \<Rightarrow> string \<Rightarrow> string" where
  "lstrip chars s = dropWhile (\<lambda>c. c \<in> set chars) s"

definition startswith :: "string \<Rightarrow> string \<Rightarrow> bool" where
  "startswith s p = (take (length p) s = p)"

text \<open>\<^verbatim>\<open>p in s\<close> for two strings: \<open>p\<close> occurs in \<open>s\<close> as a substring.\<close>

fun str_contains :: "string \<Rightarrow> string \<Rightarrow> bool" where
  "str_contains p [] = (p = [])"
| "str_contains p (c # s) = (startswith (c # s) p \<or> str_contains p s)"

definition is_space :: "char \<Rightarrow> bool" where
  "is_space c = (c \<in> set [CHR '' '', CHR 0x09, CHR 0x0A, CHR 0x0B, CHR 0x0C, CHR 0x0D])"

definition rstrip :: "string \<Rightarrow> string" where
  "rstrip s = rev (dropWhile is_space (rev s))"

section \<open>The override document and its accessors (class Override)\<close>

text \<open>
  The override document has the shape
  \<^verbatim>\<open>{header: str, classes: {Definition: {validator: str, Field: {required: bool, validator: str}}}}\<close>
  with every key optional. A missing key is \<open>None\<close>. A missing file gives the empty
  document, \<open>empty_override\<close>.
\<close>

record field_override =
  fo_required :: "bool option"
  fo_validator :: "string option"

record class_override =
  co_validator :: "string option"
  co_fields :: "(string \<times> field_override) list"

record override_doc =
  od_header :: "string option"
  od_classes :: "(string \<times> class_override) list option"

definition empty_override :: override_doc where
  "empty_override = \<lparr>od_header = None, od_classes = None\<rparr>"

text \<open>
  In the document one Python dict holds a definition's own validator name under
  the key \<^verbatim>\<open>validator\<close> and the per-field dicts under the field names, so the
  key \<^verbatim>\<open>validator\<close> never holds a per-field entry. \<open>class_items\<close> is that dict: its
  values are a string or a per-field dict.
\<close>

datatype class_item = CStr string | CField field_override

definition field_entries :: "class_override \<Rightarrow> (string \<times> field_override) list" where
  "field_entries ce = filter (\<lambda>(k, fe). k \<noteq> ''validator'') (co_fields ce)"

definition class_items :: "class_override \<Rightarrow> (string \<times> class_item) list" where
  "class_items ce =
     (case co_validator ce of None \<Rightarrow> [] | Some s \<Rightarrow> [(''validator'', CStr s)])
     @ map (\<lambda>(k, fe). (k, CField fe)) (field_entries ce)"

text \<open>\<^verbatim>\<open>if self.override:\<close> a dict is true when it has a key.\<close>

definition override_truthy :: "override_doc \<Rightarrow> bool" where
  "override_truthy ov = (od_header ov \<noteq> None \<or> od_classes ov \<noteq> None)"

text \<open>\<^verbatim>\<open>self.override['classes']\<close>\<close>

definition override_classes :: "override_doc \<Rightarrow> error + (string \<times> class_override) list" where
  "override_classes ov = (case od_classes ov of None \<Rightarrow> Inl KeyError | Some cs \<Rightarrow> Inr cs)"

text \<open>
  \<^verbatim>\<open>x['required']\<close> and \<^verbatim>\<open>x['validator']\<close> on a value of the definition's dict:
  indexing a string with a string raises TypeError.
\<close>

definition item_required :: "class_item \<Rightarrow> error + bool" where
  "item_required x =
     (case x of CStr s \<Rightarrow> Inl TypeError
      | CField fe \<Rightarrow> (case fo_required fe of None \<Rightarrow> Inl KeyError | Some b \<Rightarrow> Inr b))"

definition item_validator :: "class_item \<Rightarrow> error + string" where
  "item_validator x =
     (case x of CStr s \<Rightarrow> Inl TypeError
      | CField fe \<Rightarrow> (case fo_validator fe of None \<Rightarrow> Inl KeyError | Some v \<Rightarrow> Inr v))"

text \<open>\<^verbatim>\<open>v.lstrip('common/')\<close>; a dict has no \<^verbatim>\<open>lstrip\<close>.\<close>

definition item_lstrip :: "class_item \<Rightarrow> error + string" where
  "item_lstrip x =
     (case x of CStr s \<Rightarrow> Inr (lstrip ''common/'' s) | CField fe \<Rightarrow> Inl AttributeError)"

definition get_header :: "override_doc \<Rightarrow> string" where
  "get_header ov = (case od_header ov of None \<Rightarrow> '''' | Some h \<Rightarrow> h)"

text \<open>
  \<^verbatim>\<open>Override.get_required\<close>, \<^verbatim>\<open>get_validator\<close>, \<^verbatim>\<open>get_class_validator\<close>: when the
  document is falsy the method falls off its end and returns None.
\<close>

definition override_get_required :: "override_doc \<Rightarrow> string \<Rightarrow> string \<Rightarrow> error + bool option" where
  "override_get_required ov class_name prop =
     (if override_truthy ov then
        except_KeyError
          (bind_err (override_classes ov) (\<lambda>cs.
           bind_err (getitem cs class_name) (\<lambda>ce.
           bind_err (getitem (class_items ce) prop) item_required)))
      else Inr None)"

definition get_validator :: "override_doc \<Rightarrow> string \<Rightarrow> string \<Rightarrow> error + string option" where
  "get_validator ov class_name prop =
     (if override_truthy ov then
        except_KeyError
          (bind_err (override_classes ov) (\<lambda>cs.
           bind_err (getitem cs class_name) (\<lambda>ce.
           bind_err (getitem (class_items ce) prop) (\<lambda>x.
           bind_err (item_validator x) (\<lambda>v. Inr (lstrip ''common/'' v))))))
      else Inr None)"

definition get_class_validator :: "override_doc \<Rightarrow> string \<Rightarrow> error + string option" where
  "get_class_validator ov class_name =
     (if override_truthy ov then
        except_KeyError
          (bind_err (override_classes ov) (\<lambda>cs.
           bind_err (getitem cs class_name) (\<lambda>ce.
           bind_err (getitem (class_items ce) ''validator'') item_lstrip)))
      else Inr None)"

text \<open>\<^verbatim>\<open>Override.get_validator_list\<close>\<close>

definition ignore :: "string list" where
  "ignore = [''dict'']"

definition vlist_add :: "string \<Rightarrow> string list \<Rightarrow> string list" where
  "vlist_add validator vlist =
     (if validator \<notin> set ignore \<and> validator \<notin> set vlist then vlist @ [validator] else vlist)"

text \<open>First loop: the definition-level validators.\<close>

fun class_validators :: "(string \<times> class_override) list \<Rightarrow> string list \<Rightarrow> string list" where
  "class_validators [] vlist = vlist"
| "class_validators ((k, v) # rest) vlist =
     (case co_validator v of
        None \<Rightarrow> class_validators rest vlist
      | Some validator \<Rightarrow> class_validators rest (vlist_add validator vlist))"

text \<open>
  Second loop: \<^verbatim>\<open>for kp, vp in v.items(): if 'validator' in vp: validator = vp['validator']\<close>.
  The items include the definition-level validator string itself, on which
  \<^verbatim>\<open>in\<close> is the substring test and the subscript raises TypeError.
\<close>

fun item_validators :: "(string \<times> class_item) list \<Rightarrow> string list \<Rightarrow> error + string list" where
  "item_validators [] vlist = Inr vlist"
| "item_validators ((kp, vp) # rest) vlist =
     (case vp of
        CStr s \<Rightarrow>
          (if str_contains ''validator'' s then Inl TypeError else item_validators rest vlist)
      | CField fe \<Rightarrow>
          (case fo_validator fe of
             None \<Rightarrow> item_validators rest vlist
           | Some validator \<Rightarrow> item_validators rest (vlist_add validator vlist)))"

fun field_validators :: "(string \<times> class_override) list \<Rightarrow> string list \<Rightarrow> error + string list" where
  "field_validators [] vlist = Inr vlist"
| "field_validators ((k, v) # rest) vlist =
     bind_err (item_validators (class_items v) vlist) (field_validators rest)"

definition get_validator_list :: "override_doc \<Rightarrow> error + string list" where
  "get_validator_list ov =
     (if \<not> override_truthy ov then Inr []
      else bind_err (override_classes ov) (\<lambda>cs.
           bind_err (field_validators cs (class_validators cs [])) (\<lambda>vlist.
           Inr (sort vlist))))"

section \<open>Field descriptors and type resolution\<close>

text \<open>
  A field descriptor of the catalog is a dict with the optional keys below; an
  absent key is \<open>None\<close> and subscripting it raises KeyError.
\<close>

record descriptor =
  PrimitiveType :: "string option"
  Type :: "string option"
  ItemType :: "string option"
  PrimitiveItemType :: "string option"
  Required :: "bool option"

type_synonym props = "(string \<times> descriptor) list"

definition get_required :: "descriptor \<Rightarrow> error + bool" where
  "get_required v = (case Required v of None \<Rightarrow> Inl KeyError | Some b \<Rightarrow> Inr b)"

definition map_type :: "string \<Rightarrow> string option" where
  "map_type = map_of
     [(''Boolean'', ''boolean''),
      (''Double'', ''float''),
      (''Integer'', ''integer''),
      (''Json'', ''dict''),
      (''Long'', ''integer''),
      (''String'', ''basestring''),
      (''Timestamp'', ''basestring'')]"

text \<open>
  \<^verbatim>\<open>"[%s]" % map_type.get(value['PrimitiveItemType'])\<close>: \<^verbatim>\<open>get\<close> without a
  default gives None, which formats as \<^verbatim>\<open>None\<close>.
\<close>

definition get_type :: "descriptor \<Rightarrow> error + string" where
  "get_type v =
     (case PrimitiveType v of
        Some p \<Rightarrow> Inr (case map_type p of Some m \<Rightarrow> m | None \<Rightarrow> p)
      | None \<Rightarrow>
         (case Type v of
            None \<Rightarrow> Inl KeyError
          | Some t \<Rightarrow>
             if t = ''List'' then
               (case ItemType v of
                  Some i \<Rightarrow> Inr (''['' @ i @ '']'')
                | None \<Rightarrow>
                   (case PrimitiveItemType v of
                      None \<Rightarrow> Inl KeyError
                    | Some p \<Rightarrow>
                       Inr (''['' @ (case map_type p of Some m \<Rightarrow> m | None \<Rightarrow> ''None'') @ '']'')))
             else if t = ''Map'' then Inr ''dict''
             else Inr t))"

text \<open>\<^verbatim>\<open>File._check_type\<close> and \<^verbatim>\<open>File._get_property_type\<close>\<close>

definition check_type :: "string \<Rightarrow> descriptor \<Rightarrow> error + bool" where
  "check_type ct v =
     (case PrimitiveType v of
        Some p \<Rightarrow> Inr (p = ct)
      | None \<Rightarrow>
         (case Type v of
            None \<Rightarrow> Inl KeyError
          | Some t \<Rightarrow>
             if t = ''List'' then
               (case ItemType v of
                  Some i \<Rightarrow> Inr (i = ct)
                | None \<Rightarrow>
                   (case PrimitiveItemType v of
                      None \<Rightarrow> Inl KeyError
                    | Some p \<Rightarrow> Inr (p = ct)))
             else Inr False))"

definition get_property_type :: "descriptor \<Rightarrow> error + string option" where
  "get_property_type v =
     (case PrimitiveType v of
        Some p \<Rightarrow> Inr None
      | None \<Rightarrow>
         (case Type v of
            None \<Rightarrow> Inl KeyError
          | Some t \<Rightarrow>
             if t = ''List'' then
               (case ItemType v of Some i \<Rightarrow> Inr (Some i) | None \<Rightarrow> Inr None)
             else if t = ''Map'' then Inr None
             else Inr (Some t)))"

text \<open>\<^verbatim>\<open>File._get_type_list\<close>: the loop over \<^verbatim>\<open>props.items()\<close>, then \<^verbatim>\<open>sorted\<close>.\<close>

fun collect_types :: "props \<Rightarrow> string list \<Rightarrow> error + string list" where
  "collect_types [] type_list = Inr type_list"
| "collect_types ((k, v) # rest) type_list =
     bind_err (get_property_type v) (\<lambda>t.
       case t of None \<Rightarrow> collect_types rest type_list
       | Some x \<Rightarrow> collect_types rest (type_list @ [x]))"

definition get_type_list :: "props \<Rightarrow> error + string list" where
  "get_type_list ps = bind_err (collect_types ps []) (\<lambda>type_list. Inr (sort type_list))"

section \<open>Dependency trees (class Node, File.build_tree)\<close>

datatype node =
  Node (node_name: string) (node_props: props) (node_resource_name: "string option")
       (node_children: "node list")

definition add_child :: "node \<Rightarrow> node \<Rightarrow> node" where
  "add_child n c = (case n of Node nm ps rn cs \<Rightarrow> Node nm ps rn (cs @ [c]))"

text \<open>
  \<^verbatim>\<open>File.build_tree\<close> recurses through the property table with no cycle guard. The
  first argument is the recursion depth the interpreter still allows; at depth 0
  the call raises. \<open>build_children\<close> is the loop over \<^verbatim>\<open>prop_type_list\<close>.
\<close>

fun build_tree :: "nat \<Rightarrow> (string \<times> props) list \<Rightarrow> string \<Rightarrow> props \<Rightarrow> string option \<Rightarrow> error + node"
and build_children :: "nat \<Rightarrow> (string \<times> props) list \<Rightarrow> string list \<Rightarrow> node \<Rightarrow> error + node"
where
  "build_tree 0 tbl nm ps rn = Inl RecursionError"
| "build_tree (Suc d) tbl nm ps rn =
     bind_err (get_type_list ps) (\<lambda>prop_type_list.
       if prop_type_list = [] then Inr (Node nm ps rn [])
       else build_children d tbl (sort prop_type_list) (Node nm ps rn []))"
| "build_children d tbl [] n = Inr n"
| "build_children d tbl (prop_name # rest) n =
     (if prop_name = ''Tag'' then build_children d tbl rest n
      else bind_err (getitem tbl prop_name) (\<lambda>ps.
           bind_err (build_tree d tbl prop_name ps None) (\<lambda>child.
           build_children d tbl rest (add_child n child))))"

section \<open>Rendering one definition (output_class)\<close>

text \<open>
  The output is the sequence of \<^verbatim>\<open>print\<close> statements executed, one constructor
  for each format string of the source, carrying the values interpolated into it.
  \<open>FieldLine\<close> and \<open>FieldLineWrapped\<close> are the two formats of a field table entry
  \<^verbatim>\<open>'key': (value_type, required),\<close>. A function that prints returns the lines it
  printed and the exception that stopped it, if any.
\<close>

datatype out_line =
    Banner string
  | ImportAWSObject
  | ImportAWSProperty
  | ImportTags
  | ImportBoolean
  | ImportInteger
  | ImportValidator string string
  | Blank
  | HeaderText string
  | ClassObject string string string
  | ResourceType string
  | ClassProperty string string string
  | PropsOpen
  | FieldLine string string bool
  | FieldLineWrapped string string bool
  | PropsClose

definition then_out ::
  "out_line list \<times> error option \<Rightarrow> out_line list \<times> error option \<Rightarrow> out_line list \<times> error option"
where
  "then_out a b =
     (case a of
        (o1, Some e) \<Rightarrow> (o1, Some e)
      | (o1, None) \<Rightarrow> (case b of (o2, err) \<Rightarrow> (o1 @ o2, err)))"

text \<open>
  The body of the loop over the fields, up to the \<^verbatim>\<open>print\<close>: the resolved
  \<^verbatim>\<open>value_type\<close> and \<^verbatim>\<open>required\<close> of one field.
\<close>

definition field_facts :: "override_doc \<Rightarrow> string \<Rightarrow> string \<Rightarrow> descriptor \<Rightarrow> error + (string \<times> bool)" where
  "field_facts ov class_name key v =
     bind_err (if key = ''Tags'' then Inr ''Tags'' else get_type v) (\<lambda>value_type.
     bind_err (get_validator ov class_name key) (\<lambda>custom_validator.
     bind_err (override_get_required ov class_name key) (\<lambda>required.
     bind_err (case required of None \<Rightarrow> get_required v | Some r \<Rightarrow> Inr r) (\<lambda>required'.
     Inr (case custom_validator of None \<Rightarrow> value_type | Some c \<Rightarrow> c, required')))))"

fun output_fields :: "override_doc \<Rightarrow> string \<Rightarrow> props \<Rightarrow> out_line list \<times> error option" where
  "output_fields ov class_name [] = ([], None)"
| "output_fields ov class_name ((key, v) # rest) =
     (case field_facts ov class_name key v of
        Inl e \<Rightarrow> ([], Some e)
      | Inr (value_type, required) \<Rightarrow>
          then_out
            ([if length key + length value_type < 55
              then FieldLine key value_type required
              else FieldLineWrapped key value_type required], None)
            (output_fields ov class_name rest))"

definition output_class ::
  "string \<Rightarrow> props \<Rightarrow> override_doc \<Rightarrow> string option \<Rightarrow> out_line list \<times> error option"
where
  "output_class class_name ps ov resource_name =
     then_out ([Blank, Blank], None)
       (case get_class_validator ov class_name of
          Inl e \<Rightarrow> ([], Some e)
        | Inr class_validator \<Rightarrow>
            (let mixin = (case class_validator of
                            None \<Rightarrow> ''''
                          | Some cv \<Rightarrow> if cv = '''' then '''' else cv @ '', '');
                 linebreak = (if length mixin > 28
                              then CHR 0x0A # replicate 8 (CHR '' '') else '''')
             in then_out
                  (case resource_name of
                     None \<Rightarrow> [ClassProperty class_name linebreak mixin]
                   | Some r \<Rightarrow>
                       if r = '''' then [ClassProperty class_name linebreak mixin]
                       else [ClassObject class_name linebreak mixin, ResourceType r, Blank],
                   None)
               (then_out ([PropsOpen], None)
               (then_out (output_fields ov class_name (sort_key fst ps))
                  ([PropsClose], None)))))"

section \<open>Emission (File.output_tree, File.output)\<close>

text \<open>
  \<open>seen\<close> is the dict of names already rendered, in insertion order.
  \<open>output_trees\<close> is the loop over \<^verbatim>\<open>t.children\<close>. A \<^verbatim>\<open>Node\<close> object is always
  true, so the first test of \<^verbatim>\<open>output_tree\<close> never returns.
\<close>

fun output_tree ::
  "override_doc \<Rightarrow> node \<Rightarrow> string list \<Rightarrow> string list \<times> out_line list \<times> error option"
and output_trees ::
  "override_doc \<Rightarrow> node list \<Rightarrow> string list \<Rightarrow> string list \<times> out_line list \<times> error option"
where
  "output_tree ov (Node nm ps rn cs) seen =
     (case output_trees ov cs seen of
        (seen1, out1, Some e) \<Rightarrow> (seen1, out1, Some e)
      | (seen1, out1, None) \<Rightarrow>
          if nm \<in> set seen1 then (seen1, out1, None)
          else (case output_class nm ps ov
                       (case rn of None \<Rightarrow> None
                        | Some r \<Rightarrow> if r = '''' then None else Some r) of
                  (out2, err) \<Rightarrow> (seen1 @ [nm], out1 @ out2, err)))"
| "output_trees ov [] seen = (seen, [], None)"
| "output_trees ov (c # cs) seen =
     (case output_tree ov c seen of
        (seen1, out1, Some e) \<Rightarrow> (seen1, out1, Some e)
      | (seen1, out1, None) \<Rightarrow>
          (case output_trees ov cs seen1 of
             (seen2, out2, err) \<Rightarrow> (seen2, out1 @ out2, err)))"

text \<open>class File: the resources and properties of one grouping and its override.\<close>

record File =
  filename :: string
  properties :: "(string \<times> props) list"
  resources :: "(string \<times> props) list"
  resource_names :: "(string \<times> string) list"
  override :: override_doc

text \<open>\<^verbatim>\<open>File._output_tags\<close>: each scan stops at the first hit (\<open>True\<close>).\<close>

fun tags_in_props :: "override_doc \<Rightarrow> string \<Rightarrow> props \<Rightarrow> error + bool" where
  "tags_in_props ov class_name [] = Inr False"
| "tags_in_props ov class_name ((key, v) # rest) =
     bind_err (get_validator ov class_name key) (\<lambda>validator.
       if key = ''Tags'' \<and> validator = None then Inr True
       else tags_in_props ov class_name rest)"

fun tags_in_classes :: "override_doc \<Rightarrow> (string \<times> props) list \<Rightarrow> error + bool" where
  "tags_in_classes ov [] = Inr False"
| "tags_in_classes ov ((class_name, ps) # rest) =
     bind_err (tags_in_props ov class_name (sort_key fst ps)) (\<lambda>found.
       if found then Inr True else tags_in_classes ov rest)"

definition output_tags :: "File \<Rightarrow> out_line list \<times> error option" where
  "output_tags f =
     (case tags_in_classes (override f) (sort_key fst (resources f)) of
        Inl e \<Rightarrow> ([], Some e)
      | Inr found \<Rightarrow>
          if found then ([ImportTags], None)
          else (case tags_in_classes (override f) (sort_key fst (properties f)) of
                  Inl e \<Rightarrow> ([], Some e)
                | Inr found' \<Rightarrow> if found' then ([ImportTags], None) else ([], None)))"

text \<open>\<^verbatim>\<open>File._walk_for_type\<close>\<close>

fun type_in_props :: "string \<Rightarrow> props \<Rightarrow> error + bool" where
  "type_in_props ct [] = Inr False"
| "type_in_props ct ((key, v) # rest) =
     bind_err (check_type ct v) (\<lambda>b. if b then Inr True else type_in_props ct rest)"

fun type_in_classes :: "string \<Rightarrow> (string \<times> props) list \<Rightarrow> error + bool" where
  "type_in_classes ct [] = Inr False"
| "type_in_classes ct ((class_name, ps) # rest) =
     bind_err (type_in_props ct (sort_key fst ps)) (\<lambda>found.
       if found then Inr True else type_in_classes ct rest)"

definition walk_for_type :: "File \<Rightarrow> string \<Rightarrow> error + bool" where
  "walk_for_type f ct =
     bind_err (type_in_classes ct (sort_key fst (resources f))) (\<lambda>found.
       if found then Inr True
       else type_in_classes ct (sort_key fst (properties f)))"

text \<open>\<^verbatim>\<open>File._output_validators\<close> and \<^verbatim>\<open>File._output_imports\<close>\<close>

definition validator_import :: "string \<Rightarrow> string \<Rightarrow> out_line" where
  "validator_import fname ov_name =
     (if startswith ov_name ''common/''
      then ImportValidator ''validators'' (lstrip ''common/'' ov_name)
      else ImportValidator (fname @ ''_validators'') ov_name)"

definition output_validators :: "File \<Rightarrow> out_line list \<times> error option" where
  "output_validators f =
     then_out
       (case walk_for_type f ''Boolean'' of
          Inl e \<Rightarrow> ([], Some e)
        | Inr b \<Rightarrow> (if b then [ImportBoolean] else [], None))
    (then_out
       (case walk_for_type f ''Integer'' of
          Inl e \<Rightarrow> ([], Some e)
        | Inr b \<Rightarrow> (if b then [ImportInteger] else [], None))
       (case get_validator_list (override f) of
          Inl e \<Rightarrow> ([], Some e)
        | Inr vlist \<Rightarrow> (map (validator_import (filename f)) vlist, None)))"

definition output_imports :: "File \<Rightarrow> out_line list \<times> error option" where
  "output_imports f =
     ((if resources f \<noteq> [] then [ImportAWSObject] else [])
      @ (if properties f \<noteq> [] then [ImportAWSProperty] else []), None)"

text \<open>
  \<^verbatim>\<open>File.output\<close>. \<open>output_roots\<close> is its final loop over the sorted resources,
  with the one \<open>seen\<close> shared by all roots.
\<close>

fun output_roots ::
  "nat \<Rightarrow> File \<Rightarrow> (string \<times> props) list \<Rightarrow> string list \<Rightarrow> string list \<times> out_line list \<times> error option"
where
  "output_roots d f [] seen = (seen, [], None)"
| "output_roots d f ((class_name, ps) # rest) seen =
     (case getitem (resource_names f) class_name of
        Inl e \<Rightarrow> (seen, [], Some e)
      | Inr resource_name \<Rightarrow>
         (case build_tree d (properties f) class_name ps (Some resource_name) of
            Inl e \<Rightarrow> (seen, [], Some e)
          | Inr t \<Rightarrow>
             (case output_tree (override f) t seen of
                (seen1, out1, Some e) \<Rightarrow> (seen1, out1, Some e)
              | (seen1, out1, None) \<Rightarrow>
                  (case output_roots d f rest seen1 of
                     (seen2, out2, err) \<Rightarrow> (seen2, out1 @ out2, err)))))"

definition output_header :: "File \<Rightarrow> out_line list \<times> error option" where
  "output_header f =
     (let header = get_header (override f)
      in if header \<noteq> '''' then ([Blank, Blank, HeaderText (rstrip header)], None)
         else ([], None))"

definition file_output :: "string \<Rightarrow> nat \<Rightarrow> File \<Rightarrow> out_line list \<times> error option" where
  "file_output spec_version d f =
     then_out ([Banner spec_version], None)
    (then_out (output_imports f)
    (then_out (output_tags f)
    (then_out (output_validators f)
    (then_out (output_header f)
       (case output_roots d f (sort_key fst (resources f)) [] of
          (seen, out, err) \<Rightarrow> (out, err))))))"

section \<open>Notions of the specification\<close>


text \<open>
  A malformed field descriptor: neither PrimitiveType nor Type present, or a List
  without either ItemType or PrimitiveItemType.
\<close>

definition malformed :: "descriptor \<Rightarrow> bool" where
  "malformed v =
     ((PrimitiveType v = None \<and> Type v = None)
      \<or> (Type v = Some ''List'' \<and> ItemType v = None \<and> PrimitiveItemType v = None))"

text \<open>
  A field table references \<open>B\<close> as a non-primitive type when one of its fields
  classifies as a reference, or a list reference, to \<open>B\<close>; the built-in \<^verbatim>\<open>Tag\<close> is
  never a dependency edge.
\<close>

definition references :: "props \<Rightarrow> string \<Rightarrow> bool" where
  "references ps B =
     (B \<noteq> ''Tag'' \<and> list_ex (\<lambda>(k, v). get_property_type v = Inr (Some B)) ps)"

text \<open>
  The names a field table references directly or through the property table.
\<close>

inductive reaches :: "(string \<times> props) list \<Rightarrow> props \<Rightarrow> string \<Rightarrow> bool"
  for tbl :: "(string \<times> props) list"
where
  reaches_direct: "references ps B \<Longrightarrow> reaches tbl ps B"
| reaches_step: "references ps C \<Longrightarrow> map_of tbl C = Some ps' \<Longrightarrow> reaches tbl ps' B
                 \<Longrightarrow> reaches tbl ps B"

text \<open>A descriptor on which \<^verbatim>\<open>_get_property_type\<close> does not raise.\<close>

definition typed :: "descriptor \<Rightarrow> bool" where
  "typed v = (PrimitiveType v \<noteq> None \<or> Type v \<noteq> None)"

text \<open>All nodes of a tree, the root first.\<close>

fun nodes :: "node \<Rightarrow> node list" where
  "nodes (Node nm ps rn cs) = Node nm ps rn cs # concat (map nodes cs)"

text \<open>
  What \<^verbatim>\<open>build_tree\<close> establishes at a node: its children are the sorted
  non-primitive types of its field table without \<^verbatim>\<open>Tag\<close>, each built from
  the property table and without a resource name.
\<close>

definition node_ok :: "(string \<times> props) list \<Rightarrow> node \<Rightarrow> bool" where
  "node_ok tbl m =
     (case get_type_list (node_props m) of
        Inl e \<Rightarrow> False
      | Inr tys \<Rightarrow>
          map node_name (node_children m) = filter (\<lambda>x. x \<noteq> ''Tag'') tys
          \<and> list_all (\<lambda>c. map_of tbl (node_name c) = Some (node_props c)
                          \<and> node_resource_name c = None) (node_children m))"

text \<open>
  Reading the output: the names of the definitions rendered (of the resources
  among them), and the field names of the field table entries, in order.
\<close>

definition class_name_of :: "out_line \<Rightarrow> string option" where
  "class_name_of l =
     (case l of ClassObject n lb mx \<Rightarrow> Some n | ClassProperty n lb mx \<Rightarrow> Some n | _ \<Rightarrow> None)"

definition class_names :: "out_line list \<Rightarrow> string list" where
  "class_names out = List.map_filter class_name_of out"

definition object_name_of :: "out_line \<Rightarrow> string option" where
  "object_name_of l = (case l of ClassObject n lb mx \<Rightarrow> Some n | _ \<Rightarrow> None)"

definition object_names :: "out_line list \<Rightarrow> string list" where
  "object_names out = List.map_filter object_name_of out"

definition field_key_of :: "out_line \<Rightarrow> string option" where
  "field_key_of l =
     (case l of FieldLine k vt r \<Rightarrow> Some k | FieldLineWrapped k vt r \<Rightarrow> Some k | _ \<Rightarrow> None)"

definition field_keys :: "out_line list \<Rightarrow> string list" where
  "field_keys out = List.map_filter field_key_of out"

text \<open>
  The validator that the override document explicitly sets for a
  (definition, field) pair, as stored; unset when any level is absent.
\<close>

definition explicit_validator :: "override_doc \<Rightarrow> string \<Rightarrow> string \<Rightarrow> string option" where
  "explicit_validator ov class_name key =
     (case od_classes ov of
        None \<Rightarrow> None
      | Some cs \<Rightarrow>
         (case map_of cs class_name of
            None \<Rightarrow> None
          | Some ce \<Rightarrow>
             (case map_of (field_entries ce) key of
                None \<Rightarrow> None
              | Some fe \<Rightarrow> fo_validator fe)))"



text \<open>
  A dict put in key order: the field table, a table of field tables, a definition's
  entry of the override document, the document, and the whole grouping. Two
  groupings with the same canonical form hold the same dicts and differ only in
  the order in which their dicts iterate. \<open>canon_node\<close> does the same to the field
  tables carried by a tree.
\<close>

definition canon_props :: "props \<Rightarrow> props" where
  "canon_props ps = sort_key fst ps"

definition canon_table :: "(string \<times> props) list \<Rightarrow> (string \<times> props) list" where
  "canon_table tbl = sort_key fst (map (\<lambda>(k, ps). (k, canon_props ps)) tbl)"

definition canon_class :: "class_override \<Rightarrow> class_override" where
  "canon_class ce = ce\<lparr>co_fields := sort_key fst (co_fields ce)\<rparr>"

definition canon_override :: "override_doc \<Rightarrow> override_doc" where
  "canon_override ov =
     ov\<lparr>od_classes :=
          map_option (\<lambda>cs. sort_key fst (map (\<lambda>(k, ce). (k, canon_class ce)) cs))
            (od_classes ov)\<rparr>"

definition canon_file :: "File \<Rightarrow> File" where
  "canon_file f =
     f\<lparr>properties := canon_table (properties f),
       resources := canon_table (resources f),
       resource_names := sort_key fst (resource_names f),
       override := canon_override (override f)\<rparr>"

fun canon_node :: "node \<Rightarrow> node" where
  "canon_node (Node nm ps rn cs) = Node nm (canon_props ps) rn (map canon_node cs)"

text \<open>
  The non-primitive type of one item of a field table, and what one item of a
  definition's entry of the override document contributes to
  \<^verbatim>\<open>get_validator_list\<close>: whether it raises, and its validator.
\<close>

definition property_type_of :: "string \<times> descriptor \<Rightarrow> string option" where
  "property_type_of kv = (case get_property_type (snd kv) of Inl e \<Rightarrow> None | Inr t \<Rightarrow> t)"

definition item_raises :: "string \<times> class_item \<Rightarrow> bool" where
  "item_raises kx = (case snd kx of CStr s \<Rightarrow> str_contains ''validator'' s | CField fe \<Rightarrow> False)"

definition item_validator_of :: "string \<times> class_item \<Rightarrow> string option" where
  "item_validator_of kx = (case snd kx of CStr s \<Rightarrow> None | CField fe \<Rightarrow> fo_validator fe)"

section \<open>Invariants of the emission\<close>

text \<open>
  \<open>line_ok f S l\<close>: if \<open>l\<close> opens a definition, the definition is in the
  grouping's tables and every name its field table references is in \<open>S\<close>.
  \<open>safe_from f S out\<close>: each line of \<open>out\<close> is fine for \<open>S\<close> and the names
  rendered before it. \<open>good f m\<close>: the node \<open>m\<close> carries a field table of the
  grouping and has a child for each name it references. \<open>tree_inv\<close> relates
  the result of walking the nodes \<open>ms\<close> to the \<open>seen\<close> it started from.
\<close>

definition line_ok :: "File \<Rightarrow> string set \<Rightarrow> out_line \<Rightarrow> bool" where
  "line_ok f S l =
     (case l of
        ClassObject A lb mx \<Rightarrow>
          (\<exists>ps. (A, ps) \<in> set (resources f) \<and> (\<forall>B. references ps B \<longrightarrow> B \<in> S))
      | ClassProperty A lb mx \<Rightarrow>
          (\<exists>ps. map_of (properties f) A = Some ps \<and> (\<forall>B. references ps B \<longrightarrow> B \<in> S))
      | _ \<Rightarrow> True)"

fun safe_from :: "File \<Rightarrow> string set \<Rightarrow> out_line list \<Rightarrow> bool" where
  "safe_from f S [] = True"
| "safe_from f S (l # ls) = (line_ok f S l \<and> safe_from f (S \<union> set (class_names [l])) ls)"

definition good :: "File \<Rightarrow> node \<Rightarrow> bool" where
  "good f m =
     ((case node_resource_name m of
         None \<Rightarrow> map_of (properties f) (node_name m) = Some (node_props m)
       | Some r \<Rightarrow> r \<noteq> '''' \<and> (node_name m, node_props m) \<in> set (resources f))
      \<and> (\<forall>B. references (node_props m) B \<longrightarrow> B \<in> node_name ` set (node_children m)))"

definition tree_inv ::
  "File \<Rightarrow> node list \<Rightarrow> string list \<Rightarrow> string list \<times> out_line list \<times> error option \<Rightarrow> bool"
where
  "tree_inv f ms seen r =
     (case r of (seen', out, err) \<Rightarrow>
        seen' = seen @ class_names out
        \<and> (distinct seen \<longrightarrow> distinct seen')
        \<and> (err = None \<longrightarrow> node_name ` set ms \<subseteq> set seen')
        \<and> ((\<forall>m \<in> set ms. good f m) \<longrightarrow> safe_from f (set seen) out)
        \<and> ((\<forall>m \<in> set ms. node_resource_name m = None) \<longrightarrow> object_names out = [])
        \<and> ImportTags \<notin> set out)"

text \<open>
  \<open>roots_inv\<close> relates the result of the loop of \<^verbatim>\<open>File.output\<close> over the roots
  \<open>xs\<close> to the \<open>seen\<close> it started from.
\<close>

definition roots_inv ::
  "nat \<Rightarrow> File \<Rightarrow> (string \<times> props) list \<Rightarrow> string list
   \<Rightarrow> string list \<times> out_line list \<times> error option \<Rightarrow> bool"
where
  "roots_inv d f xs seen r =
     (case r of (seen', out, err) \<Rightarrow>
        seen' = seen @ class_names out
        \<and> (distinct seen \<longrightarrow> distinct seen')
        \<and> (err = None \<longrightarrow>
             (\<forall>cn ps. (cn, ps) \<in> set xs \<longrightarrow>
                (\<exists>rn t. build_tree d (properties f) cn ps (Some rn) = Inr t
                        \<and> node_name ` set (nodes t) \<subseteq> set seen')))
        \<and> ((\<forall>c r. (c, r) \<in> set (resource_names f) \<longrightarrow> r \<noteq> '''')
             \<and> set xs \<subseteq> set (resources f) \<longrightarrow> safe_from f (set seen) out)
        \<and> (sorted (map fst xs) \<longrightarrow>
             sorted (object_names out) \<and> set (object_names out) \<subseteq> fst ` set xs)
        \<and> ImportTags \<notin> set out)"

section \<open>Example inputs\<close>

definition desc ::
  "string option \<Rightarrow> string option \<Rightarrow> string option \<Rightarrow> string option \<Rightarrow> bool option \<Rightarrow> descriptor"
where
  "desc p t i pi r =
     \<lparr>PrimitiveType = p, Type = t, ItemType = i, PrimitiveItemType = pi, Required = r\<rparr>"

text \<open>
  \<^verbatim>\<open>classes: {Baz: {validator: custom_check, Y: {required: true}}}\<close>
\<close>

definition ov_baz :: override_doc where
  "ov_baz = \<lparr>od_header = None, od_classes = Some [(''Baz'',
      \<lparr>co_validator = Some ''custom_check'',
       co_fields = [(''Y'', \<lparr>fo_required = Some True, fo_validator = None\<rparr>)]\<rparr>)]\<rparr>"

text \<open>
  \<^verbatim>\<open>classes: {Listener: {validator: one_of, Port: {validator: common/network_port}}}\<close>
\<close>

definition ov_listener :: override_doc where
  "ov_listener = \<lparr>od_header = None, od_classes = Some [(''Listener'',
      \<lparr>co_validator = Some ''one_of'',
       co_fields = [(''Port'', \<lparr>fo_required = None,
                                 fo_validator = Some ''common/network_port''\<rparr>)]\<rparr>)]\<rparr>"

text \<open>\<^verbatim>\<open>header: "# x"\<close> and nothing else.\<close>

definition ov_header_only :: override_doc where
  "ov_header_only = \<lparr>od_header = Some ''# x'', od_classes = None\<rparr>"






text \<open>
  A grouping with two resources that both reference the property \<^verbatim>\<open>Shared\<close>.
\<close>

definition file_shared :: File where
  "file_shared =
     \<lparr>filename = ''foo'',
      properties = [(''Shared'', [(''X'', desc (Some ''Integer'') None None None (Some True))])],
      resources = [(''Baz'', [(''Y'', desc None (Some ''Shared'') None None (Some False))]),
                   (''Alpha'', [(''Z'', desc None (Some ''List'') (Some ''Shared'') None
                                   (Some False))])],
      resource_names = [(''Baz'', ''AWS::Foo::Baz''), (''Alpha'', ''AWS::Foo::Alpha'')],
      override = empty_override\<rparr>"



text \<open>
  A grouping with the one resource \<^verbatim>\<open>K\<close> over a given field table, and two
  well-formed fields: a Boolean \<^verbatim>\<open>A\<close> and an Integer \<^verbatim>\<open>B\<close>.
\<close>

definition file_of_fields :: "props \<Rightarrow> File" where
  "file_of_fields ps =
     \<lparr>filename = ''foo'',
      properties = [],
      resources = [(''K'', ps)],
      resource_names = [(''K'', ''AWS::Foo::K'')],
      override = empty_override\<rparr>"

definition fields_ab :: props where
  "fields_ab = [(''A'', desc (Some ''Boolean'') None None None (Some True)),
                (''B'', desc (Some ''Integer'') None None None (Some True))]"

text \<open>
  One grouping written down in two iteration orders: every dict of the second is
  the reverse of the dict of the first.
\<close>

definition fields_shared :: props where
  "fields_shared = [(''X'', desc (Some ''Integer'') None None None (Some True)),
                    (''W'', desc (Some ''String'') None None None (Some False))]"

definition fields_extra :: props where
  "fields_extra = [(''E'', desc (Some ''Boolean'') None None None (Some False))]"

definition fields_baz :: props where
  "fields_baz = [(''Y'', desc None (Some ''Shared'') None None (Some False)),
                 (''Name'', desc (Some ''String'') None None None (Some True)),
                 (''B'', desc None (Some ''Extra'') None None (Some False))]"

definition fields_alpha :: props where
  "fields_alpha = [(''Z'', desc None (Some ''List'') (Some ''Shared'') None (Some False))]"

definition file_order1 :: File where
  "file_order1 =
     \<lparr>filename = ''foo'',
      properties = [(''Shared'', fields_shared), (''Extra'', fields_extra)],
      resources = [(''Baz'', fields_baz), (''Alpha'', fields_alpha)],
      resource_names = [(''Baz'', ''AWS::Foo::Baz''), (''Alpha'', ''AWS::Foo::Alpha'')],
      override = ov_baz\<rparr>"

definition file_order2 :: File where
  "file_order2 =
     \<lparr>filename = ''foo'',
      properties = [(''Extra'', rev fields_extra), (''Shared'', rev fields_shared)],
      resources = [(''Alpha'', rev fields_alpha), (''Baz'', rev fields_baz)],
      resource_names = [(''Alpha'', ''AWS::Foo::Alpha''), (''Baz'', ''AWS::Foo::Baz'')],
      override = ov_baz\<rparr>"

section \<open>Properties of the override accessors\<close>

lemma map_of_field_entries_validator: "map_of (field_entries ce) ''validator'' = None"
  by (auto simp: field_entries_def map_of_eq_None_iff)

lemma map_of_map_CField:
  "map_of (map (\<lambda>(k, fe). (k, CField fe)) xs) k = map_option CField (map_of xs k)"
  by (induction xs) auto

lemma map_of_class_items:
  "map_of (class_items ce) k =
     (if k = ''validator'' then map_option CStr (co_validator ce)
      else map_option CField (map_of (field_entries ce) k))"
  by (cases "co_validator ce")
     (simp_all add: class_items_def map_of_map_CField map_of_field_entries_validator)


lemma get_class_validator_total: "\<exists>r. get_class_validator ov cn = Inr r"
  by (auto simp: get_class_validator_def except_KeyError_def bind_err_def override_classes_def
      getitem_def map_of_class_items item_lstrip_def split: if_splits option.splits sum.splits)

text \<open>
  On the empty document (a missing override file) every accessor returns its
  unset value.
\<close>

lemma accessors_on_empty_override:
  "get_header empty_override = ''''"
  "override_get_required empty_override cn k = Inr None"
  "get_validator empty_override cn k = Inr None"
  "get_class_validator empty_override cn = Inr None"
  "get_validator_list empty_override = Inr []"
  by (simp_all add: empty_override_def get_header_def override_get_required_def
      get_validator_def get_class_validator_def get_validator_list_def override_truthy_def)

text \<open>
  C4. The stored validator names \<^verbatim>\<open>common/network_port\<close> and \<^verbatim>\<open>one_of\<close>:
  \<^verbatim>\<open>lstrip('common/')\<close> strips every leading character that occurs in the
  argument, so \<open>get_validator\<close> returns \<^verbatim>\<open>etwork_port\<close>, not the name with the prefix
  removed, and \<open>get_class_validator\<close> returns \<^verbatim>\<open>e_of\<close>, not the unchanged name.
\<close>

theorem validator_lstrip_eats_name:
  "get_validator ov_listener ''Listener'' ''Port'' = Inr (Some ''etwork_port'')
   \<and> get_class_validator ov_listener ''Listener'' = Inr (Some ''e_of'')"
  by code_simp

text \<open>
  C7. On a document that holds a header and no \<^verbatim>\<open>classes\<close> mapping,
  \<open>get_validator_list\<close> raises KeyError: it subscripts \<^verbatim>\<open>self.override['classes']\<close>
  outside any \<^verbatim>\<open>try\<close>, where the other accessors catch the KeyError.
\<close>

theorem get_validator_list_raises_without_classes:
  "get_validator_list ov_header_only = Inl KeyError"
  by code_simp

section \<open>Properties of type resolution\<close>

lemma get_type_unknown_scalar:
  "PrimitiveType v = Some p \<Longrightarrow> map_type p = None \<Longrightarrow> get_type v = Inr p"
  by (simp add: get_type_def)

text \<open>
  C5. A List whose PrimitiveItemType \<^verbatim>\<open>Foo\<close> is not in the type-mapping table
  resolves to \<^verbatim>\<open>[None]\<close>, not to the name wrapped as the item type: the lookup
  \<^verbatim>\<open>map_type.get(value['PrimitiveItemType'])\<close> has no default, where the scalar
  lookup passes the name as its default.
\<close>

theorem get_type_unknown_list_item:
  "map_type ''Foo'' = None
   \<and> get_type (desc None (Some ''List'') None (Some ''Foo'') (Some True)) = Inr ''[None]''
   \<and> get_type (desc (Some ''Foo'') None None None (Some True)) = Inr ''Foo''"
  by code_simp

lemma get_type_malformed:
  "malformed v \<Longrightarrow> PrimitiveType v = None \<Longrightarrow> get_type v = Inl KeyError"
  by (auto simp: malformed_def get_type_def)

section \<open>Properties of output_class\<close>

lemma then_out_single_fst: "fst (then_out ([l], None) b) = l # fst b"
  by (cases b) (simp add: then_out_def)


lemma output_fields_line:
  assumes "l \<in> set (fst (output_fields ov cn xs))"
  shows "\<exists>k v vt r. (k, v) \<in> set xs \<and> field_facts ov cn k v = Inr (vt, r)
           \<and> (l = FieldLine k vt r \<or> l = FieldLineWrapped k vt r)"
  using assms
proof (induction xs)
  case Nil
  then show ?case by simp
next
  case (Cons a xs)
  obtain k v where a: "a = (k, v)" by (cases a)
  show ?case
  proof (cases "field_facts ov cn k v")
    case (Inl e)
    with Cons.prems a show ?thesis by simp
  next
    case (Inr p)
    obtain vt r where p: "p = (vt, r)" by (cases p)
    from Cons.prems a Inr p
    have "l = (if length k + length vt < 55 then FieldLine k vt r else FieldLineWrapped k vt r)
          \<or> l \<in> set (fst (output_fields ov cn xs))"
      by (simp add: then_out_single_fst)
    then show ?thesis
    proof
      assume "l = (if length k + length vt < 55 then FieldLine k vt r else FieldLineWrapped k vt r)"
      with Inr p a show ?thesis by (auto split: if_splits)
    next
      assume "l \<in> set (fst (output_fields ov cn xs))"
      from Cons.IH[OF this] show ?thesis by auto
    qed
  qed
qed




lemma field_facts_malformed:
  "malformed v \<Longrightarrow> PrimitiveType v = None \<Longrightarrow> k \<noteq> ''Tags'' \<Longrightarrow>
   field_facts ov cn k v = Inl KeyError"
  by (simp add: field_facts_def get_type_malformed bind_err_def)

lemma output_fields_fails:
  assumes "(k, v) \<in> set xs" and "field_facts ov cn k v = Inl e"
  shows "snd (output_fields ov cn xs) \<noteq> None"
  using assms
proof (induction xs)
  case Nil
  then show ?case by simp
next
  case (Cons a xs)
  obtain k' v' where a: "a = (k', v')" by (cases a)
  show ?case
  proof (cases "field_facts ov cn k' v'")
    case (Inl e')
    with a show ?thesis by simp
  next
    case (Inr p)
    with Cons a have "snd (output_fields ov cn xs) \<noteq> None" by auto
    with Inr a show ?thesis
      by (cases "output_fields ov cn xs") (auto simp: then_out_def split: prod.splits)
  qed
qed

lemma output_fields_no_close: "PropsClose \<notin> set (fst (output_fields ov cn xs))"
  using output_fields_line[of PropsClose ov cn xs] by auto

lemma output_class_fails:
  assumes "snd (output_fields ov cn (sort_key fst ps)) \<noteq> None"
  shows "snd (output_class cn ps ov rn) \<noteq> None
       \<and> PropsOpen \<in> set (fst (output_class cn ps ov rn))
       \<and> PropsClose \<notin> set (fst (output_class cn ps ov rn))"
proof -
  obtain cv where cv: "get_class_validator ov cn = Inr cv"
    using get_class_validator_total by blast
  obtain fo fe where f: "output_fields ov cn (sort_key fst ps) = (fo, fe)"
    by (cases "output_fields ov cn (sort_key fst ps)")
  with assms obtain e where e: "fe = Some e" by auto
  have nc: "PropsClose \<notin> set fo"
    using output_fields_no_close[of ov cn "sort_key fst ps"] f by simp
  show ?thesis
    unfolding output_class_def Let_def using cv f e nc
    by (auto simp: then_out_def split: option.splits)
qed

section \<open>Properties of build_tree\<close>

lemma bind_err_Inr_iff:
  "bind_err r k = Inr y \<longleftrightarrow> (\<exists>x. r = Inr x \<and> k x = Inr y)"
  by (cases r) (simp_all add: bind_err_def)


lemma get_property_type_Inl:
  "get_property_type v = Inl e \<longleftrightarrow> e = KeyError \<and> \<not> typed v"
  by (auto simp: get_property_type_def typed_def split: option.splits)

lemma collect_types_Inr:
  "collect_types ps acc = Inr tys \<Longrightarrow>
   set tys = set acc \<union> {B. \<exists>k v. (k, v) \<in> set ps \<and> get_property_type v = Inr (Some B)}"
proof (induction ps arbitrary: acc)
  case Nil
  then show ?case by simp
next
  case (Cons a ps)
  obtain k v where a: "a = (k, v)" by (cases a)
  from Cons.prems a obtain t where t: "get_property_type v = Inr t"
    and r: "(case t of None \<Rightarrow> collect_types ps acc | Some x \<Rightarrow> collect_types ps (acc @ [x])) = Inr tys"
    by (auto simp: bind_err_Inr_iff)
  show ?case
  proof (cases t)
    case None
    with r have "collect_types ps acc = Inr tys" by simp
    from Cons.IH[OF this] a t None show ?thesis by auto
  next
    case (Some x)
    with r have "collect_types ps (acc @ [x]) = Inr tys" by simp
    from Cons.IH[OF this] a t Some show ?thesis by auto
  qed
qed



lemma get_type_list_Inr:
  assumes "get_type_list ps = Inr tys"
  shows "sorted tys" and "B \<in> set tys \<and> B \<noteq> ''Tag'' \<longleftrightarrow> references ps B"
proof -
  from assms obtain tys0 where c: "collect_types ps [] = Inr tys0" and tys: "tys = sort tys0"
    by (auto simp: get_type_list_def bind_err_Inr_iff)
  from tys show "sorted tys" by simp
  from collect_types_Inr[OF c] tys
  show "B \<in> set tys \<and> B \<noteq> ''Tag'' \<longleftrightarrow> references ps B"
    by (auto simp: references_def list_ex_iff)
qed



lemma add_child_sel [simp]:
  "node_name (add_child n c) = node_name n"
  "node_props (add_child n c) = node_props n"
  "node_resource_name (add_child n c) = node_resource_name n"
  "node_children (add_child n c) = node_children n @ [c]"
  by (cases n; simp add: add_child_def)+

lemma build_children_shape:
  "build_children d tbl xs n = Inr t \<Longrightarrow>
   node_name t = node_name n \<and> node_props t = node_props n
   \<and> node_resource_name t = node_resource_name n"
proof (induction xs arbitrary: n)
  case Nil
  then show ?case by simp
next
  case (Cons x xs)
  show ?case
  proof (cases "x = ''Tag''")
    case True
    with Cons show ?thesis by simp
  next
    case False
    with Cons.prems obtain child where
      "build_children d tbl xs (add_child n child) = Inr t"
      by (auto simp: bind_err_Inr_iff)
    from Cons.IH[OF this] show ?thesis by simp
  qed
qed

lemma build_tree_shape:
  "build_tree d tbl nm ps rn = Inr t \<Longrightarrow>
   node_name t = nm \<and> node_props t = ps \<and> node_resource_name t = rn"
proof (cases d)
  case 0
  assume "build_tree d tbl nm ps rn = Inr t"
  with 0 show ?thesis by simp
next
  case (Suc d')
  assume "build_tree d tbl nm ps rn = Inr t"
  with Suc show ?thesis
    by (auto simp: bind_err_Inr_iff split: if_splits dest: build_children_shape)
qed

lemma build_children_Inr:
  "build_children d tbl xs n = Inr t \<Longrightarrow>
   \<exists>cs. t = Node (node_name n) (node_props n) (node_resource_name n) (node_children n @ cs)
       \<and> map node_name cs = filter (\<lambda>x. x \<noteq> ''Tag'') xs
       \<and> (\<forall>c \<in> set cs. \<exists>ps. map_of tbl (node_name c) = Some ps
              \<and> build_tree d tbl (node_name c) ps None = Inr c)"
proof (induction xs arbitrary: n)
  case Nil
  then show ?case by (cases n) auto
next
  case (Cons x xs)
  show ?case
  proof (cases "x = ''Tag''")
    case True
    with Cons.prems have "build_children d tbl xs n = Inr t" by simp
    from Cons.IH[OF this] True show ?thesis by auto
  next
    case False
    with Cons.prems obtain ps child where ps: "map_of tbl x = Some ps"
      and ch: "build_tree d tbl x ps None = Inr child"
      and r: "build_children d tbl xs (add_child n child) = Inr t"
      by (auto simp: bind_err_Inr_iff getitem_def split: option.splits)
    have nm: "node_name child = x"
      using build_tree_shape[OF ch] by simp
    from Cons.IH[OF r] obtain cs where
      t: "t = Node (node_name n) (node_props n) (node_resource_name n) (node_children n @ child # cs)"
      and m: "map node_name cs = filter (\<lambda>x. x \<noteq> ''Tag'') xs"
      and a: "\<forall>c \<in> set cs. \<exists>ps. map_of tbl (node_name c) = Some ps
              \<and> build_tree d tbl (node_name c) ps None = Inr c"
      by (cases n) (auto simp: add_child_def)
    show ?thesis
      by (rule exI[of _ "child # cs"]) (use t m a False ps ch nm in auto)
  qed
qed

lemma nodes_unfold: "nodes t = t # concat (map nodes (node_children t))"
  by (cases t) simp

lemma build_tree_Inr:
  assumes "build_tree d tbl nm ps rn = Inr t"
  shows "\<exists>d' tys. d = Suc d' \<and> get_type_list ps = Inr tys
           \<and> node_name t = nm \<and> node_props t = ps \<and> node_resource_name t = rn
           \<and> map node_name (node_children t) = filter (\<lambda>x. x \<noteq> ''Tag'') tys
           \<and> (\<forall>c \<in> set (node_children t). \<exists>psc. map_of tbl (node_name c) = Some psc
                  \<and> build_tree d' tbl (node_name c) psc None = Inr c)"
proof (cases d)
  case 0
  with assms show ?thesis by simp
next
  case (Suc d')
  with assms obtain tys where tys: "get_type_list ps = Inr tys"
    and r: "(if tys = [] then Inr (Node nm ps rn [])
             else build_children d' tbl (sort tys) (Node nm ps rn [])) = Inr t"
    by (auto simp: bind_err_Inr_iff)
  have srt: "sort tys = tys"
    using get_type_list_Inr(1)[OF tys] by (simp add: sorted_sort_id)
  show ?thesis
  proof (cases "tys = []")
    case True
    with r Suc tys show ?thesis by auto
  next
    case False
    with r srt have "build_children d' tbl tys (Node nm ps rn []) = Inr t" by simp
    from build_children_Inr[OF this] Suc tys show ?thesis by auto
  qed
qed

lemma build_tree_nodes_ok:
  "build_tree d tbl nm ps rn = Inr t \<Longrightarrow> \<forall>m \<in> set (nodes t). node_ok tbl m"
proof (induction d arbitrary: nm ps rn t)
  case 0
  then show ?case by simp
next
  case (Suc d)
  from build_tree_Inr[OF Suc.prems] obtain tys where
    tys: "get_type_list ps = Inr tys" and sel: "node_props t = ps"
    and ch: "map node_name (node_children t) = filter (\<lambda>x. x \<noteq> ''Tag'') tys"
    and sub: "\<forall>c \<in> set (node_children t). \<exists>psc. map_of tbl (node_name c) = Some psc
                  \<and> build_tree d tbl (node_name c) psc None = Inr c"
    by auto
  have root: "node_ok tbl t"
    unfolding node_ok_def using tys sel ch sub
    by (auto simp: list_all_iff dest!: build_tree_shape)
  have "\<forall>c \<in> set (node_children t). \<forall>m \<in> set (nodes c). node_ok tbl m"
    using sub Suc.IH by blast
  with root show ?case
    by (subst nodes_unfold) auto
qed


lemma build_tree_child_of_reference:
  assumes "build_tree d tbl nm ps rn = Inr t" and "references ps C"
  shows "\<exists>d' psc c. d = Suc d' \<and> map_of tbl C = Some psc \<and> c \<in> set (node_children t)
           \<and> node_name c = C \<and> build_tree d' tbl C psc None = Inr c"
proof -
  from build_tree_Inr[OF assms(1)] obtain d' tys where d: "d = Suc d'"
    and tys: "get_type_list ps = Inr tys"
    and ch: "map node_name (node_children t) = filter (\<lambda>x. x \<noteq> ''Tag'') tys"
    and sub: "\<forall>c \<in> set (node_children t). \<exists>psc. map_of tbl (node_name c) = Some psc
                  \<and> build_tree d' tbl (node_name c) psc None = Inr c"
    by auto
  from get_type_list_Inr(2)[OF tys] assms(2) have "C \<in> set (filter (\<lambda>x. x \<noteq> ''Tag'') tys)"
    by auto
  with ch have "C \<in> node_name ` set (node_children t)"
    by (metis list.set_map)
  then obtain c where "c \<in> set (node_children t)" "node_name c = C" by auto
  with sub d show ?thesis by blast
qed
















section \<open>Reading the output of output_class\<close>

lemma class_names_simps [simp]:
  "class_names [] = []"
  "class_names (xs @ ys) = class_names xs @ class_names ys"
  "class_names (ClassObject n lb mx # xs) = n # class_names xs"
  "class_names (ClassProperty n lb mx # xs) = n # class_names xs"
  "class_name_of l = None \<Longrightarrow> class_names (l # xs) = class_names xs"
  by (simp_all add: class_names_def class_name_of_def map_filter_def)

lemma object_names_simps [simp]:
  "object_names [] = []"
  "object_names (xs @ ys) = object_names xs @ object_names ys"
  "object_names (ClassObject n lb mx # xs) = n # object_names xs"
  "object_name_of l = None \<Longrightarrow> object_names (l # xs) = object_names xs"
  by (simp_all add: object_names_def object_name_of_def map_filter_def)

lemma name_of_simps [simp]:
  "class_name_of Blank = None" "class_name_of PropsOpen = None" "class_name_of PropsClose = None"
  "class_name_of (ResourceType r) = None" "class_name_of (FieldLine k vt b) = None"
  "class_name_of (FieldLineWrapped k vt b) = None" "class_name_of (Banner v) = None"
  "class_name_of ImportAWSObject = None" "class_name_of ImportAWSProperty = None"
  "class_name_of ImportTags = None" "class_name_of ImportBoolean = None"
  "class_name_of ImportInteger = None" "class_name_of (ImportValidator a c) = None"
  "class_name_of (HeaderText h) = None"
  "object_name_of Blank = None" "object_name_of PropsOpen = None" "object_name_of PropsClose = None"
  "object_name_of (ResourceType r) = None" "object_name_of (FieldLine k vt b) = None"
  "object_name_of (FieldLineWrapped k vt b) = None" "object_name_of (Banner v) = None"
  "object_name_of ImportAWSObject = None" "object_name_of ImportAWSProperty = None"
  "object_name_of ImportTags = None" "object_name_of ImportBoolean = None"
  "object_name_of ImportInteger = None" "object_name_of (ImportValidator a c) = None"
  "object_name_of (HeaderText h) = None" "object_name_of (ClassProperty n lb mx) = None"
  by (simp_all add: class_name_of_def object_name_of_def)

lemma fst_then_out:
  "fst (then_out a b) = fst a @ (case snd a of None \<Rightarrow> fst b | Some e \<Rightarrow> [])"
  by (cases a; cases b) (simp add: then_out_def split: option.splits)

lemma snd_then_out:
  "snd (then_out a b) = (case snd a of None \<Rightarrow> snd b | Some e \<Rightarrow> Some e)"
  by (cases a; cases b) (simp add: then_out_def split: option.splits)

lemma output_fields_names:
  "class_names (fst (output_fields ov cn xs)) = []"
  "object_names (fst (output_fields ov cn xs)) = []"
proof (induction xs)
  case Nil
  { case 1 show ?case by simp }
  { case 2 show ?case by simp }
next
  case (Cons a xs)
  { case 1
    obtain k v where a: "a = (k, v)" by (cases a)
    show ?case using Cons(1) a
      by (cases "field_facts ov cn k v") (auto simp: fst_then_out split: prod.splits) }
  { case 2
    obtain k v where a: "a = (k, v)" by (cases a)
    show ?case using Cons(2) a
      by (cases "field_facts ov cn k v") (auto simp: fst_then_out split: prod.splits) }
qed

lemma output_class_names:
  "class_names (fst (output_class nm ps ov rn)) = [nm]"
proof -
  obtain cv where cv: "get_class_validator ov nm = Inr cv"
    using get_class_validator_total by blast
  show ?thesis
    unfolding output_class_def Let_def cv
    by (simp add: fst_then_out output_fields_names split: option.splits)
qed

lemma output_class_objects:
  "object_names (fst (output_class nm ps ov rn)) =
     (case rn of None \<Rightarrow> [] | Some r \<Rightarrow> if r = '''' then [] else [nm])"
proof -
  obtain cv where cv: "get_class_validator ov nm = Inr cv"
    using get_class_validator_total by blast
  show ?thesis
    unfolding output_class_def Let_def cv
    by (simp add: fst_then_out output_fields_names split: option.splits)
qed

section \<open>Dependency safety of a line-by-line output\<close>

lemma output_class_fst:
  "\<exists>lb mx. fst (output_class cn ps ov rn) =
     [Blank, Blank]
     @ (case rn of
          None \<Rightarrow> [ClassProperty cn lb mx]
        | Some r \<Rightarrow> if r = '''' then [ClassProperty cn lb mx]
                    else [ClassObject cn lb mx, ResourceType r, Blank])
     @ [PropsOpen]
     @ fst (output_fields ov cn (sort_key fst ps))
     @ (case snd (output_fields ov cn (sort_key fst ps)) of
          None \<Rightarrow> [PropsClose] | Some e \<Rightarrow> [])"
proof -
  obtain cv where cv: "get_class_validator ov cn = Inr cv"
    using get_class_validator_total by blast
  show ?thesis
    unfolding output_class_def Let_def cv
    by (cases rn) (simp_all add: fst_then_out snd_then_out split: option.split)
qed

lemma output_class_header_lines:
  assumes "l \<in> set (fst (output_class cn ps ov rn))"
  shows "l \<in> {Blank, PropsOpen, PropsClose}
         \<or> (\<exists>lb mx. l = ClassProperty cn lb mx \<and> (rn = None \<or> rn = Some ''''))
         \<or> (\<exists>lb mx r. l = ClassObject cn lb mx \<and> rn = Some r \<and> r \<noteq> '''')
         \<or> (\<exists>r. l = ResourceType r)
         \<or> l \<in> set (fst (output_fields ov cn (sort_key fst ps)))"
proof -
  from output_class_fst[of cn ps ov rn] obtain lb mx where
    eq: "fst (output_class cn ps ov rn) =
     [Blank, Blank]
     @ (case rn of
          None \<Rightarrow> [ClassProperty cn lb mx]
        | Some r \<Rightarrow> if r = '''' then [ClassProperty cn lb mx]
                    else [ClassObject cn lb mx, ResourceType r, Blank])
     @ [PropsOpen]
     @ fst (output_fields ov cn (sort_key fst ps))
     @ (case snd (output_fields ov cn (sort_key fst ps)) of
          None \<Rightarrow> [PropsClose] | Some e \<Rightarrow> [])"
    by blast
  show ?thesis
  proof (cases rn)
    case None
    with assms eq show ?thesis
      by (cases "snd (output_fields ov cn (sort_key fst ps))") auto
  next
    case (Some r)
    show ?thesis
    proof (cases "r = ''''")
      case True
      with Some assms eq show ?thesis
        by (cases "snd (output_fields ov cn (sort_key fst ps))") auto
    next
      case False
      with Some assms eq show ?thesis
        by (cases "snd (output_fields ov cn (sort_key fst ps))") auto
    qed
  qed
qed

lemma class_names_Cons: "class_names (l # xs) = class_names [l] @ class_names xs"
  by (simp add: class_names_def map_filter_def)

lemma line_ok_mono: "line_ok f S l \<Longrightarrow> S \<subseteq> S' \<Longrightarrow> line_ok f S' l"
  unfolding line_ok_def by (cases l) auto

lemma safe_from_mono: "safe_from f S out \<Longrightarrow> S \<subseteq> S' \<Longrightarrow> safe_from f S' out"
proof (induction out arbitrary: S S')
  case Nil
  then show ?case by simp
next
  case (Cons l out)
  from Cons.prems have "line_ok f S' l" by (auto intro: line_ok_mono)
  moreover have "safe_from f (S' \<union> set (class_names [l])) out"
  proof (rule Cons.IH)
    show "safe_from f (S \<union> set (class_names [l])) out" using Cons.prems by simp
    show "S \<union> set (class_names [l]) \<subseteq> S' \<union> set (class_names [l])"
      using Cons.prems by auto
  qed
  ultimately show ?case by simp
qed

lemma safe_from_append:
  "safe_from f S (xs @ ys) = (safe_from f S xs \<and> safe_from f (S \<union> set (class_names xs)) ys)"
proof (induction xs arbitrary: S)
  case Nil
  then show ?case by simp
next
  case (Cons l xs)
  have "S \<union> set (class_names [l]) \<union> set (class_names xs) = S \<union> set (class_names (l # xs))"
    by (subst (2) class_names_Cons) auto
  with Cons show ?case by simp
qed

lemma safe_from_all: "\<forall>x \<in> set out. line_ok f S x \<Longrightarrow> safe_from f S out"
proof (induction out arbitrary: S)
  case Nil
  then show ?case by simp
next
  case (Cons l out)
  have "\<forall>x \<in> set out. line_ok f (S \<union> set (class_names [l])) x"
    using Cons.prems by (auto intro: line_ok_mono)
  with Cons show ?case by simp
qed


lemma output_class_no_import: "ImportTags \<notin> set (fst (output_class nm ps ov rn))"
proof
  assume "ImportTags \<in> set (fst (output_class nm ps ov rn))"
  from output_class_header_lines[OF this]
  have "ImportTags \<in> set (fst (output_fields ov nm (sort_key fst ps)))" by auto
  from output_fields_line[OF this] show False by auto
qed

lemma output_class_line_ok:
  assumes "case rn of None \<Rightarrow> map_of (properties f) nm = Some ps
           | Some r \<Rightarrow> r \<noteq> '''' \<and> (nm, ps) \<in> set (resources f)"
    and "\<forall>B. references ps B \<longrightarrow> B \<in> S"
    and "l \<in> set (fst (output_class nm ps ov rn))"
  shows "line_ok f S l"
proof -
  from output_class_header_lines[OF assms(3)] consider
      "l \<in> {Blank, PropsOpen, PropsClose}"
    | lb mx where "l = ClassProperty nm lb mx" "rn = None \<or> rn = Some ''''"
    | lb mx r where "l = ClassObject nm lb mx" "rn = Some r" "r \<noteq> ''''"
    | r where "l = ResourceType r"
    | "l \<in> set (fst (output_fields ov nm (sort_key fst ps)))"
    by blast
  then show ?thesis
  proof cases
    case 1
    then show ?thesis by (auto simp: line_ok_def)
  next
    case 2
    with assms(1,2) show ?thesis by (auto simp: line_ok_def)
  next
    case 3
    with assms(1,2) show ?thesis by (auto simp: line_ok_def)
  next
    case 4
    then show ?thesis by (simp add: line_ok_def)
  next
    case 5
    from output_fields_line[OF this] show ?thesis by (auto simp: line_ok_def)
  qed
qed

section \<open>The invariant of output_tree\<close>

lemma tree_inv_nil: "tree_inv f [] seen (seen, [], None)"
  by (simp add: tree_inv_def)

lemma tree_inv_err:
  assumes "tree_inv f ms seen (s, out, Some e)" and "set ms \<subseteq> set ms'"
  shows "tree_inv f ms' seen (s, out, Some e)"
proof -
  from assms(1) have a: "s = seen @ class_names out" "distinct seen \<longrightarrow> distinct s"
    and g: "(\<forall>m \<in> set ms. good f m) \<longrightarrow> safe_from f (set seen) out"
    and n: "(\<forall>m \<in> set ms. node_resource_name m = None) \<longrightarrow> object_names out = []"
    and t: "ImportTags \<notin> set out"
    unfolding tree_inv_def prod.case by blast+
  from g assms(2) have g': "(\<forall>m \<in> set ms'. good f m) \<longrightarrow> safe_from f (set seen) out"
    by blast
  from n assms(2)
  have n': "(\<forall>m \<in> set ms'. node_resource_name m = None) \<longrightarrow> object_names out = []"
    by blast
  from a g' n' t show ?thesis by (simp add: tree_inv_def)
qed

lemma tree_inv_seq:
  assumes "tree_inv f ms1 seen (s1, o1, None)" and "tree_inv f ms2 s1 (s2, o2, e2)"
  shows "tree_inv f (ms1 @ ms2) seen (s2, o1 @ o2, e2)"
proof -
  from assms have s1: "s1 = seen @ class_names o1" and s2: "s2 = s1 @ class_names o2"
    unfolding tree_inv_def prod.case by blast+
  from assms have d1: "distinct seen \<longrightarrow> distinct s1" and d2: "distinct s1 \<longrightarrow> distinct s2"
    unfolding tree_inv_def prod.case by blast+
  from assms have n1: "node_name ` set ms1 \<subseteq> set s1"
    and n2: "e2 = None \<longrightarrow> node_name ` set ms2 \<subseteq> set s2"
    unfolding tree_inv_def prod.case by blast+
  have c1: "s2 = seen @ class_names (o1 @ o2)" using s1 s2 by simp
  have c2: "distinct seen \<longrightarrow> distinct s2" using d1 d2 by blast
  have "set s1 \<subseteq> set s2" using s2 by simp
  with n1 n2 have c3: "e2 = None \<longrightarrow> node_name ` set (ms1 @ ms2) \<subseteq> set s2"
    by (simp add: image_Un) blast
  have c4: "(\<forall>m \<in> set (ms1 @ ms2). good f m) \<longrightarrow> safe_from f (set seen) (o1 @ o2)"
  proof
    assume g: "\<forall>m \<in> set (ms1 @ ms2). good f m"
    then have g1: "\<forall>m \<in> set ms1. good f m" and g2: "\<forall>m \<in> set ms2. good f m" by simp_all
    from assms(1) g1 have "safe_from f (set seen) o1" by (simp add: tree_inv_def)
    moreover from assms(2) g2 have "safe_from f (set s1) o2" by (simp add: tree_inv_def)
    moreover have "set s1 = set seen \<union> set (class_names o1)" using s1 by simp
    ultimately show "safe_from f (set seen) (o1 @ o2)" by (simp add: safe_from_append)
  qed
  have c5: "(\<forall>m \<in> set (ms1 @ ms2). node_resource_name m = None) \<longrightarrow> object_names (o1 @ o2) = []"
  proof
    assume a: "\<forall>m \<in> set (ms1 @ ms2). node_resource_name m = None"
    then have a1: "\<forall>m \<in> set ms1. node_resource_name m = None"
      and a2: "\<forall>m \<in> set ms2. node_resource_name m = None" by simp_all
    from assms(1) a1 have "object_names o1 = []" by (simp add: tree_inv_def)
    moreover from assms(2) a2 have "object_names o2 = []" by (simp add: tree_inv_def)
    ultimately show "object_names (o1 @ o2) = []" by simp
  qed
  from assms have "ImportTags \<notin> set o1" and "ImportTags \<notin> set o2"
    unfolding tree_inv_def prod.case by blast+
  then have c6: "ImportTags \<notin> set (o1 @ o2)" by simp
  from c1 c2 c3 c4 c5 c6 show ?thesis unfolding tree_inv_def by simp
qed

lemma output_trees_inv:
  assumes "\<And>c seen. c \<in> set cs \<Longrightarrow> tree_inv f (nodes c) seen (output_tree ov c seen)"
  shows "tree_inv f (concat (map nodes cs)) seen (output_trees ov cs seen)"
  using assms
proof (induction cs arbitrary: seen)
  case Nil
  then show ?case by (simp add: tree_inv_nil)
next
  case (Cons c cs)
  obtain s1 o1 e1 where r1: "output_tree ov c seen = (s1, o1, e1)"
    by (cases "output_tree ov c seen")
  have "tree_inv f (nodes c) seen (output_tree ov c seen)"
    by (rule Cons.prems) simp
  with r1 have i1: "tree_inv f (nodes c) seen (s1, o1, e1)" by simp
  show ?case
  proof (cases e1)
    case (Some e)
    with r1 have eq: "output_trees ov (c # cs) seen = (s1, o1, Some e)" by simp
    from i1 Some have "tree_inv f (nodes c) seen (s1, o1, Some e)" by simp
    moreover have "set (nodes c) \<subseteq> set (concat (map nodes (c # cs)))" by simp
    ultimately have "tree_inv f (concat (map nodes (c # cs))) seen (s1, o1, Some e)"
      by (rule tree_inv_err)
    with eq show ?thesis by simp
  next
    case None
    obtain s2 o2 e2 where r2: "output_trees ov cs s1 = (s2, o2, e2)"
      by (cases "output_trees ov cs s1")
    have "tree_inv f (concat (map nodes cs)) s1 (output_trees ov cs s1)"
    proof (rule Cons.IH)
      fix c' seen' assume "c' \<in> set cs"
      then have "c' \<in> set (c # cs)" by simp
      then show "tree_inv f (nodes c') seen' (output_tree ov c' seen')" by (rule Cons.prems)
    qed
    with r2 have i2: "tree_inv f (concat (map nodes cs)) s1 (s2, o2, e2)" by simp
    from i1 None have "tree_inv f (nodes c) seen (s1, o1, None)" by simp
    from tree_inv_seq[OF this i2]
    have "tree_inv f (nodes c @ concat (map nodes cs)) seen (s2, o1 @ o2, e2)" .
    moreover from r1 r2 None have "output_trees ov (c # cs) seen = (s2, o1 @ o2, e2)" by simp
    ultimately show ?thesis by simp
  qed
qed

lemma child_in_nodes: "c \<in> set (nodes c)"
  by (cases c) simp

lemma tree_inv_emit:
  assumes ch: "tree_inv f (concat (map nodes cs)) seen (s1, o1, None)"
    and nin: "nm \<notin> set s1"
    and oc: "output_class nm ps ov (case rn of None \<Rightarrow> None
                | Some r \<Rightarrow> if r = '''' then None else Some r) = (o2, e2)"
  shows "tree_inv f (Node nm ps rn cs # concat (map nodes cs)) seen (s1 @ [nm], o1 @ o2, e2)"
proof -
  let ?rn = "case rn of None \<Rightarrow> None | Some r \<Rightarrow> if r = '''' then None else Some r"
  let ?ms = "concat (map nodes cs)"
  from ch have s1: "s1 = seen @ class_names o1" and d1: "distinct seen \<longrightarrow> distinct s1"
    and n1: "node_name ` set ?ms \<subseteq> set s1"
    unfolding tree_inv_def prod.case by blast+
  have n2: "class_names o2 = [nm]" using output_class_names[of nm ps ov ?rn] oc by simp
  have c1: "s1 @ [nm] = seen @ class_names (o1 @ o2)" using s1 n2 by simp
  have c2: "distinct seen \<longrightarrow> distinct (s1 @ [nm])" using d1 nin by simp
  have c3: "e2 = None \<longrightarrow> node_name ` set (Node nm ps rn cs # ?ms) \<subseteq> set (s1 @ [nm])"
    using n1 by auto
  have c4: "(\<forall>m \<in> set (Node nm ps rn cs # ?ms). good f m) \<longrightarrow>
              safe_from f (set seen) (o1 @ o2)"
  proof
    assume g: "\<forall>m \<in> set (Node nm ps rn cs # ?ms). good f m"
    then have g0: "good f (Node nm ps rn cs)" and g1: "\<forall>m \<in> set ?ms. good f m" by simp_all
    from ch g1 have sf1: "safe_from f (set seen) o1" by (simp add: tree_inv_def)
    have "set cs \<subseteq> set ?ms" using child_in_nodes by auto
    with n1 have sub: "node_name ` set cs \<subseteq> set s1" by blast
    from g0 have r0: "\<forall>B. references ps B \<longrightarrow> B \<in> node_name ` set cs"
      by (simp add: good_def)
    with sub have refs: "\<forall>B. references ps B \<longrightarrow> B \<in> set s1" by blast
    from g0 have k0: "case rn of None \<Rightarrow> map_of (properties f) nm = Some ps
           | Some r \<Rightarrow> r \<noteq> '''' \<and> (nm, ps) \<in> set (resources f)"
      by (cases rn) (simp_all add: good_def)
    have kind: "case ?rn of None \<Rightarrow> map_of (properties f) nm = Some ps
           | Some r \<Rightarrow> r \<noteq> '''' \<and> (nm, ps) \<in> set (resources f)"
      using k0 by (cases rn) simp_all
    have "\<forall>l \<in> set o2. line_ok f (set s1) l"
    proof
      fix l assume "l \<in> set o2"
      with oc have "l \<in> set (fst (output_class nm ps ov ?rn))" by simp
      with kind refs show "line_ok f (set s1) l" by (rule output_class_line_ok)
    qed
    then have "safe_from f (set s1) o2" by (rule safe_from_all)
    moreover have "set s1 = set seen \<union> set (class_names o1)" using s1 by simp
    ultimately show "safe_from f (set seen) (o1 @ o2)" using sf1 by (simp add: safe_from_append)
  qed
  have c5: "(\<forall>m \<in> set (Node nm ps rn cs # ?ms). node_resource_name m = None)
              \<longrightarrow> object_names (o1 @ o2) = []"
  proof
    assume a: "\<forall>m \<in> set (Node nm ps rn cs # ?ms). node_resource_name m = None"
    then have "rn = None" and a1: "\<forall>m \<in> set ?ms. node_resource_name m = None" by simp_all
    then have "object_names o2 = []"
      using output_class_objects[of nm ps ov ?rn] oc by simp
    moreover from a1 ch have "object_names o1 = []" by (simp add: tree_inv_def)
    ultimately show "object_names (o1 @ o2) = []" by simp
  qed
  from ch have "ImportTags \<notin> set o1"
    unfolding tree_inv_def prod.case by blast
  moreover have "ImportTags \<notin> set o2"
    using output_class_no_import[of nm ps ov ?rn] oc by simp
  ultimately have c6: "ImportTags \<notin> set (o1 @ o2)" by simp
  from c1 c2 c3 c4 c5 c6 show ?thesis unfolding tree_inv_def by simp
qed

lemma tree_inv_skip:
  assumes ch: "tree_inv f (concat (map nodes cs)) seen (s1, o1, None)"
    and "nm \<in> set s1"
  shows "tree_inv f (Node nm ps rn cs # concat (map nodes cs)) seen (s1, o1, None)"
proof -
  let ?ms = "concat (map nodes cs)"
  from ch have a: "s1 = seen @ class_names o1" "distinct seen \<longrightarrow> distinct s1"
    and n1: "node_name ` set ?ms \<subseteq> set s1"
    and g: "(\<forall>m \<in> set ?ms. good f m) \<longrightarrow> safe_from f (set seen) o1"
    and n: "(\<forall>m \<in> set ?ms. node_resource_name m = None) \<longrightarrow> object_names o1 = []"
    and t: "ImportTags \<notin> set o1"
    unfolding tree_inv_def prod.case by blast+
  from n1 assms(2) have c3: "node_name ` set (Node nm ps rn cs # ?ms) \<subseteq> set s1" by simp
  from g have c4: "(\<forall>m \<in> set (Node nm ps rn cs # ?ms). good f m) \<longrightarrow> safe_from f (set seen) o1"
    by simp
  from n have c5: "(\<forall>m \<in> set (Node nm ps rn cs # ?ms). node_resource_name m = None)
                    \<longrightarrow> object_names o1 = []"
    by simp
  from a c3 c4 c5 t show ?thesis unfolding tree_inv_def by simp
qed

lemma output_tree_inv: "tree_inv f (nodes t) seen (output_tree ov t seen)"
proof (induction t arbitrary: seen)
  case (Node nm ps rn cs)
  have ch: "tree_inv f (concat (map nodes cs)) seen (output_trees ov cs seen)"
  proof (rule output_trees_inv)
    fix c seen' assume "c \<in> set cs"
    then show "tree_inv f (nodes c) seen' (output_tree ov c seen')" by (rule Node.IH)
  qed
  obtain s1 o1 e1 where r1: "output_trees ov cs seen = (s1, o1, e1)"
    by (cases "output_trees ov cs seen")
  show ?case
  proof (cases e1)
    case (Some e)
    with r1 have eq: "output_tree ov (Node nm ps rn cs) seen = (s1, o1, Some e)" by simp
    from ch r1 Some have "tree_inv f (concat (map nodes cs)) seen (s1, o1, Some e)" by simp
    moreover have "set (concat (map nodes cs)) \<subseteq> set (nodes (Node nm ps rn cs))" by auto
    ultimately have "tree_inv f (nodes (Node nm ps rn cs)) seen (s1, o1, Some e)"
      by (rule tree_inv_err)
    with eq show ?thesis by simp
  next
    case None
    from ch r1 None have ch': "tree_inv f (concat (map nodes cs)) seen (s1, o1, None)" by simp
    show ?thesis
    proof (cases "nm \<in> set s1")
      case True
      with r1 None have eq: "output_tree ov (Node nm ps rn cs) seen = (s1, o1, None)" by simp
      from ch' True
      have "tree_inv f (Node nm ps rn cs # concat (map nodes cs)) seen (s1, o1, None)"
        by (rule tree_inv_skip)
      with eq show ?thesis by simp
    next
      case False
      obtain o2 e2 where oc: "output_class nm ps ov (case rn of None \<Rightarrow> None
                | Some r \<Rightarrow> if r = '''' then None else Some r) = (o2, e2)"
        by (cases "output_class nm ps ov (case rn of None \<Rightarrow> None
                | Some r \<Rightarrow> if r = '''' then None else Some r)")
      with r1 None False
      have eq: "output_tree ov (Node nm ps rn cs) seen = (s1 @ [nm], o1 @ o2, e2)" by simp
      from ch' False oc
      have "tree_inv f (Node nm ps rn cs # concat (map nodes cs)) seen
                       (s1 @ [nm], o1 @ o2, e2)"
        by (rule tree_inv_emit)
      with eq show ?thesis by simp
    qed
  qed
qed

section \<open>Trees built by build_tree, walked by output_tree\<close>

lemma nodes_child_subset: "c \<in> set (node_children t) \<Longrightarrow> set (nodes c) \<subseteq> set (nodes t)"
  by (subst (2) nodes_unfold) auto

lemma build_tree_reaches_node:
  "reaches tbl ps B \<Longrightarrow> build_tree d tbl nm ps rn = Inr t \<Longrightarrow> B \<in> node_name ` set (nodes t)"
proof (induction arbitrary: d nm rn t rule: reaches.induct)
  case (reaches_direct ps B)
  from build_tree_child_of_reference[OF reaches_direct(2,1)]
  obtain c where c: "c \<in> set (node_children t)" "node_name c = B" by blast
  from c(1) have "c \<in> set (nodes t)" using nodes_child_subset child_in_nodes by blast
  with c(2) show ?case by blast
next
  case (reaches_step ps C ps' B)
  from build_tree_child_of_reference[OF reaches_step.prems reaches_step.hyps(1)]
  obtain d' c where c: "c \<in> set (node_children t)" and b: "build_tree d' tbl C ps' None = Inr c"
    using reaches_step.hyps(2) by auto
  from reaches_step.IH[OF b] have "B \<in> node_name ` set (nodes c)" .
  with nodes_child_subset[OF c] show ?case by blast
qed

lemma build_tree_root_node:
  assumes "build_tree d tbl nm ps rn = Inr t"
  shows "nm \<in> node_name ` set (nodes t)"
proof -
  from build_tree_shape[OF assms] have "node_name t = nm" by simp
  moreover have "t \<in> set (nodes t)" by (rule child_in_nodes)
  ultimately show ?thesis by blast
qed

lemma build_tree_nodes_table:
  "build_tree d tbl nm ps rn = Inr t \<Longrightarrow>
   \<forall>m \<in> set (nodes t). m = t \<or>
      (node_resource_name m = None \<and> map_of tbl (node_name m) = Some (node_props m))"
proof (induction d arbitrary: nm ps rn t)
  case 0
  then show ?case by simp
next
  case (Suc d)
  from build_tree_Inr[OF Suc.prems]
  have sub: "\<forall>c \<in> set (node_children t). \<exists>psc. map_of tbl (node_name c) = Some psc
                  \<and> build_tree d tbl (node_name c) psc None = Inr c"
    by auto
  show ?case
  proof
    fix m assume "m \<in> set (nodes t)"
    then consider "m = t" | c where "c \<in> set (node_children t)" "m \<in> set (nodes c)"
      by (subst (asm) nodes_unfold) auto
    then show "m = t \<or>
      (node_resource_name m = None \<and> map_of tbl (node_name m) = Some (node_props m))"
    proof cases
      case 1
      then show ?thesis by simp
    next
      case 2
      with sub obtain psc where p: "map_of tbl (node_name c) = Some psc"
        and b: "build_tree d tbl (node_name c) psc None = Inr c" by blast
      from build_tree_shape[OF b] p
      have c: "node_resource_name c = None \<and> map_of tbl (node_name c) = Some (node_props c)"
        by simp
      from bspec[OF Suc.IH[OF b] 2(2)] have "m = c \<or>
        (node_resource_name m = None \<and> map_of tbl (node_name m) = Some (node_props m))" .
      then show ?thesis
      proof
        assume "m = c"
        with c show ?thesis by simp
      next
        assume "node_resource_name m = None \<and> map_of tbl (node_name m) = Some (node_props m)"
        then show ?thesis by simp
      qed
    qed
  qed
qed

lemma node_ok_refs:
  assumes "node_ok tbl m" and "references (node_props m) B"
  shows "B \<in> node_name ` set (node_children m)"
proof -
  from assms(1) obtain tys where tys: "get_type_list (node_props m) = Inr tys"
    and ch: "map node_name (node_children m) = filter (\<lambda>x. x \<noteq> ''Tag'') tys"
    by (auto simp: node_ok_def split: sum.splits)
  from get_type_list_Inr(2)[OF tys, of B] assms(2)
  have "B \<in> set (filter (\<lambda>x. x \<noteq> ''Tag'') tys)" by simp
  with ch show ?thesis by (metis list.set_map)
qed

lemma build_tree_good:
  assumes b: "build_tree d (properties f) cn ps (Some r) = Inr t"
    and r: "r \<noteq> ''''" and i: "(cn, ps) \<in> set (resources f)"
  shows "\<forall>m \<in> set (nodes t). good f m"
proof
  fix m assume m: "m \<in> set (nodes t)"
  from bspec[OF build_tree_nodes_ok[OF b] m] have ok: "node_ok (properties f) m" .
  have refs: "\<forall>B. references (node_props m) B \<longrightarrow> B \<in> node_name ` set (node_children m)"
  proof (intro allI impI)
    fix B assume "references (node_props m) B"
    with ok show "B \<in> node_name ` set (node_children m)" by (rule node_ok_refs)
  qed
  from bspec[OF build_tree_nodes_table[OF b] m]
  have "m = t \<or> (node_resource_name m = None
          \<and> map_of (properties f) (node_name m) = Some (node_props m))" .
  then consider "m = t"
    | "node_resource_name m = None" "map_of (properties f) (node_name m) = Some (node_props m)"
    by (elim disjE conjE)
  then show "good f m"
  proof cases
    case 1
    from build_tree_shape[OF b] have sh: "node_name t = cn" "node_props t = ps"
      "node_resource_name t = Some r" by simp_all
    from refs 1 have "\<forall>B. references (node_props t) B \<longrightarrow> B \<in> node_name ` set (node_children t)"
      by simp
    with sh r i have "good f t" unfolding good_def by simp
    with 1 show ?thesis by simp
  next
    case 2
    with refs show ?thesis unfolding good_def by simp
  qed
qed

lemma build_tree_children_no_resource:
  assumes "build_tree d tbl nm ps rn = Inr t"
  shows "\<forall>m \<in> set (concat (map nodes (node_children t))). node_resource_name m = None"
proof
  fix m assume "m \<in> set (concat (map nodes (node_children t)))"
  then obtain c where c: "c \<in> set (node_children t)" and m: "m \<in> set (nodes c)" by auto
  from build_tree_Inr[OF assms] obtain d' where
    sub: "\<forall>c \<in> set (node_children t). \<exists>psc. map_of tbl (node_name c) = Some psc
                  \<and> build_tree d' tbl (node_name c) psc None = Inr c"
    by auto
  from sub c obtain psc where
    b: "build_tree d' tbl (node_name c) psc None = Inr c" by blast
  from build_tree_shape[OF b] have cn: "node_resource_name c = None" by simp
  from bspec[OF build_tree_nodes_table[OF b] m]
  have "m = c \<or>
      (node_resource_name m = None \<and> map_of tbl (node_name m) = Some (node_props m))" .
  then show "node_resource_name m = None"
  proof
    assume "m = c"
    with cn show ?thesis by simp
  next
    assume "node_resource_name m = None \<and> map_of tbl (node_name m) = Some (node_props m)"
    then show ?thesis by simp
  qed
qed

lemma output_tree_root_objects:
  assumes n: "\<forall>m \<in> set (concat (map nodes cs)). node_resource_name m = None"
    and r: "output_tree ov (Node nm ps rn cs) seen = (s, out, e)"
  shows "object_names out = [] \<or> object_names out = [nm]"
proof -
  obtain s1 o1 e1 where r1: "output_trees ov cs seen = (s1, o1, e1)"
    by (cases "output_trees ov cs seen")
  have "tree_inv undefined (concat (map nodes cs)) seen (output_trees ov cs seen)"
    by (rule output_trees_inv) (rule output_tree_inv)
  with r1 have "tree_inv undefined (concat (map nodes cs)) seen (s1, o1, e1)" by simp
  with n have o1: "object_names o1 = []"
    unfolding tree_inv_def prod.case by blast
  show ?thesis
  proof (cases e1)
    case (Some e')
    with r r1 o1 show ?thesis by simp
  next
    case None
    show ?thesis
    proof (cases "nm \<in> set s1")
      case True
      with r r1 None o1 show ?thesis by simp
    next
      case False
      let ?rn = "case rn of None \<Rightarrow> None | Some r \<Rightarrow> if r = '''' then None else Some r"
      from r r1 None False have "out = o1 @ fst (output_class nm ps ov ?rn)"
        by (simp split: prod.splits)
      with o1 have "object_names out = object_names (fst (output_class nm ps ov ?rn))" by simp
      then show ?thesis
        by (simp add: output_class_objects split: option.splits if_splits)
    qed
  qed
qed

section \<open>The loop over the roots and the whole output\<close>

lemma roots_inv_stop: "roots_inv d f xs seen (seen, [], Some e)"
  by (simp add: roots_inv_def)

lemma getitem_Inr_mem: "getitem xs k = Inr v \<Longrightarrow> (k, v) \<in> set xs"
  by (auto simp: getitem_def split: option.splits dest: map_of_SomeD)

lemma roots_inv_step:
  assumes g: "getitem (resource_names f) cn = Inr rn"
    and b: "build_tree d (properties f) cn ps (Some rn) = Inr t"
    and o: "output_tree (override f) t seen = (s1, o1, e1)"
    and rest: "e1 = None \<Longrightarrow> roots_inv d f xs s1 (s2, o2, e2)"
  shows "roots_inv d f ((cn, ps) # xs) seen
           (if e1 = None then (s2, o1 @ o2, e2) else (s1, o1, e1))"
proof -
  have "tree_inv f (nodes t) seen (output_tree (override f) t seen)"
    by (rule output_tree_inv)
  with o have ti: "tree_inv f (nodes t) seen (s1, o1, e1)" by simp
  from ti have a1: "s1 = seen @ class_names o1" and a2: "distinct seen \<longrightarrow> distinct s1"
    and a3: "e1 = None \<longrightarrow> node_name ` set (nodes t) \<subseteq> set s1"
    and a4: "(\<forall>m \<in> set (nodes t). good f m) \<longrightarrow> safe_from f (set seen) o1"
    and a6: "ImportTags \<notin> set o1"
    unfolding tree_inv_def prod.case by blast+
  have sh: "node_name t = cn" "node_props t = ps" "node_resource_name t = Some rn"
    using build_tree_shape[OF b] by simp_all
  then have teq: "t = Node cn ps (Some rn) (node_children t)" by (cases t) simp
  have "\<forall>m \<in> set (concat (map nodes (node_children t))). node_resource_name m = None"
    using b by (rule build_tree_children_no_resource)
  moreover from o teq
  have "output_tree (override f) (Node cn ps (Some rn) (node_children t)) seen = (s1, o1, e1)"
    by simp
  ultimately have obj: "object_names o1 = [] \<or> object_names o1 = [cn]"
    by (rule output_tree_root_objects)
  have safe1: "safe_from f (set seen) o1"
    if h: "\<forall>c r. (c, r) \<in> set (resource_names f) \<longrightarrow> r \<noteq> ''''"
      and i: "(cn, ps) \<in> set (resources f)"
  proof -
    from g have "(cn, rn) \<in> set (resource_names f)" by (rule getitem_Inr_mem)
    with h have "rn \<noteq> ''''" by blast
    with b have "\<forall>m \<in> set (nodes t). good f m" using i by (rule build_tree_good)
    with a4 show ?thesis by blast
  qed
  show ?thesis
  proof (cases e1)
    case (Some e)
    have c5: "sorted (object_names o1) \<and> set (object_names o1) \<subseteq> fst ` set ((cn, ps) # xs)"
      using obj by auto
    have c4: "(\<forall>c r. (c, r) \<in> set (resource_names f) \<longrightarrow> r \<noteq> '''')
             \<and> set ((cn, ps) # xs) \<subseteq> set (resources f) \<longrightarrow> safe_from f (set seen) o1"
      using safe1 by simp
    from Some a1 a2 c4 c5 a6 show ?thesis
      unfolding roots_inv_def by simp
  next
    case None
    from rest[OF None] have b1: "s2 = s1 @ class_names o2"
      and b2: "distinct s1 \<longrightarrow> distinct s2"
      and b3: "e2 = None \<longrightarrow>
             (\<forall>cn ps. (cn, ps) \<in> set xs \<longrightarrow>
                (\<exists>rn t. build_tree d (properties f) cn ps (Some rn) = Inr t
                        \<and> node_name ` set (nodes t) \<subseteq> set s2))"
      and b4: "(\<forall>c r. (c, r) \<in> set (resource_names f) \<longrightarrow> r \<noteq> '''')
             \<and> set xs \<subseteq> set (resources f) \<longrightarrow> safe_from f (set s1) o2"
      and b5: "sorted (map fst xs) \<longrightarrow>
             sorted (object_names o2) \<and> set (object_names o2) \<subseteq> fst ` set xs"
      and b6: "ImportTags \<notin> set o2"
      unfolding roots_inv_def prod.case by blast+
    have c1: "s2 = seen @ class_names (o1 @ o2)" using a1 b1 by simp
    have c2: "distinct seen \<longrightarrow> distinct s2" using a2 b2 by blast
    have s12: "set s1 \<subseteq> set s2" using b1 by simp
    have c3: "e2 = None \<longrightarrow>
             (\<forall>cn' ps'. (cn', ps') \<in> set ((cn, ps) # xs) \<longrightarrow>
                (\<exists>rn t. build_tree d (properties f) cn' ps' (Some rn) = Inr t
                        \<and> node_name ` set (nodes t) \<subseteq> set s2))"
    proof (intro impI allI)
      fix cn' ps' assume e: "e2 = None" and m: "(cn', ps') \<in> set ((cn, ps) # xs)"
      from m consider "cn' = cn" "ps' = ps" | "(cn', ps') \<in> set xs" by auto
      then show "\<exists>rn t. build_tree d (properties f) cn' ps' (Some rn) = Inr t
                        \<and> node_name ` set (nodes t) \<subseteq> set s2"
      proof cases
        case 1
        from a3 None s12 have "node_name ` set (nodes t) \<subseteq> set s2" by blast
        with b 1 show ?thesis by blast
      next
        case 2
        with b3 e show ?thesis by blast
      qed
    qed
    have c4: "(\<forall>c r. (c, r) \<in> set (resource_names f) \<longrightarrow> r \<noteq> '''')
             \<and> set ((cn, ps) # xs) \<subseteq> set (resources f) \<longrightarrow> safe_from f (set seen) (o1 @ o2)"
    proof
      assume h: "(\<forall>c r. (c, r) \<in> set (resource_names f) \<longrightarrow> r \<noteq> '''')
             \<and> set ((cn, ps) # xs) \<subseteq> set (resources f)"
      then have "safe_from f (set seen) o1" using safe1 by simp
      moreover from h b4 have "safe_from f (set s1) o2" by simp
      moreover have "set s1 = set seen \<union> set (class_names o1)" using a1 by simp
      ultimately show "safe_from f (set seen) (o1 @ o2)" by (simp add: safe_from_append)
    qed
    have c5: "sorted (map fst ((cn, ps) # xs)) \<longrightarrow>
             sorted (object_names (o1 @ o2))
             \<and> set (object_names (o1 @ o2)) \<subseteq> fst ` set ((cn, ps) # xs)"
    proof
      assume s: "sorted (map fst ((cn, ps) # xs))"
      then have sx: "sorted (map fst xs)" and le: "\<forall>y \<in> fst ` set xs. cn \<le> y" by auto
      from b5 sx have o2s: "sorted (object_names o2)"
        and o2m: "set (object_names o2) \<subseteq> fst ` set xs" by simp_all
      from o2m le have le2: "\<forall>y \<in> set (object_names o2). cn \<le> y" by blast
      from obj show "sorted (object_names (o1 @ o2))
             \<and> set (object_names (o1 @ o2)) \<subseteq> fst ` set ((cn, ps) # xs)"
      proof
        assume "object_names o1 = []"
        with o2s o2m show ?thesis by auto
      next
        assume "object_names o1 = [cn]"
        with o2s o2m le2 show ?thesis by auto
      qed
    qed
    have c6: "ImportTags \<notin> set (o1 @ o2)" using a6 b6 by simp
    from None c1 c2 c3 c4 c5 c6 show ?thesis
      unfolding roots_inv_def by simp
  qed
qed

lemma output_roots_inv: "roots_inv d f xs seen (output_roots d f xs seen)"
proof (induction xs arbitrary: seen)
  case Nil
  show ?case by (simp add: roots_inv_def)
next
  case (Cons a xs)
  obtain cn ps where a: "a = (cn, ps)" by (cases a)
  show ?case
  proof (cases "getitem (resource_names f) cn")
    case (Inl e)
    with a show ?thesis by (simp add: roots_inv_stop)
  next
    case g: (Inr rn)
    show ?thesis
    proof (cases "build_tree d (properties f) cn ps (Some rn)")
      case (Inl e)
      with a g show ?thesis by (simp add: roots_inv_stop)
    next
      case b: (Inr t)
      obtain s1 o1 e1 where o: "output_tree (override f) t seen = (s1, o1, e1)"
        by (cases "output_tree (override f) t seen")
      obtain s2 o2 e2 where r: "output_roots d f xs s1 = (s2, o2, e2)"
        by (cases "output_roots d f xs s1")
      have "roots_inv d f xs s1 (output_roots d f xs s1)" by (rule Cons.IH)
      with r have rest: "roots_inv d f xs s1 (s2, o2, e2)" by simp
      have "roots_inv d f ((cn, ps) # xs) seen
              (if e1 = None then (s2, o1 @ o2, e2) else (s1, o1, e1))"
        using g b o rest by (rule roots_inv_step)
      moreover have "output_roots d f ((cn, ps) # xs) seen
              = (if e1 = None then (s2, o1 @ o2, e2) else (s1, o1, e1))"
        using g b o r by (cases e1) simp_all
      ultimately show ?thesis using a by simp
    qed
  qed
qed

lemma roots_pair: "(case r of (seen, out, err) \<Rightarrow> (out, err)) = snd r"
  by (cases r) simp

lemma file_output_fst:
  "fst (file_output v d f) =
     Banner v # fst (output_imports f) @ fst (output_tags f)
     @ (case snd (output_tags f) of
          Some e \<Rightarrow> []
        | None \<Rightarrow>
            fst (output_validators f)
            @ (case snd (output_validators f) of
                 Some e \<Rightarrow> []
               | None \<Rightarrow>
                   fst (output_header f)
                   @ fst (snd (output_roots d f (sort_key fst (resources f)) []))))"
proof -
  have i: "snd (output_imports f) = None" by (simp add: output_imports_def)
  have h: "snd (output_header f) = None" by (simp add: output_header_def Let_def)
  show ?thesis
    unfolding file_output_def roots_pair
    by (simp add: fst_then_out snd_then_out i h split: option.split)
qed

lemma file_output_snd:
  "snd (file_output v d f) =
     (case snd (output_tags f) of
        Some e \<Rightarrow> Some e
      | None \<Rightarrow>
          (case snd (output_validators f) of
             Some e \<Rightarrow> Some e
           | None \<Rightarrow> snd (snd (output_roots d f (sort_key fst (resources f)) []))))"
proof -
  have i: "snd (output_imports f) = None" by (simp add: output_imports_def)
  have h: "snd (output_header f) = None" by (simp add: output_header_def Let_def)
  show ?thesis
    unfolding file_output_def roots_pair
    by (simp add: snd_then_out i h split: option.split)
qed

lemma plain_names:
  "\<forall>l \<in> set xs. class_name_of l = None \<Longrightarrow> class_names xs = []"
  by (induction xs) simp_all


lemma plain_object: "class_name_of l = None \<Longrightarrow> object_name_of l = None"
  by (cases l) (simp_all add: class_name_of_def object_name_of_def)

lemma plain_objects:
  "\<forall>l \<in> set xs. class_name_of l = None \<Longrightarrow> object_names xs = []"
  by (induction xs) (simp_all add: plain_object)

lemma plain_imports: "\<forall>l \<in> set (fst (output_imports f)). class_name_of l = None"
  by (auto simp: output_imports_def)

lemma plain_tags: "\<forall>l \<in> set (fst (output_tags f)). class_name_of l = None"
  by (auto simp: output_tags_def split: sum.splits if_splits)

lemma plain_validator_import: "class_name_of (validator_import a b) = None"
  by (simp add: validator_import_def)

lemma plain_validators: "\<forall>l \<in> set (fst (output_validators f)). class_name_of l = None"
  unfolding output_validators_def
  by (auto simp: fst_then_out plain_validator_import split: sum.splits option.splits)

lemma plain_header: "\<forall>l \<in> set (fst (output_header f)). class_name_of l = None"
  by (auto simp: output_header_def Let_def)

text \<open>The lines printed before the definitions.\<close>

lemma file_output_split:
  "\<exists>pre. (\<forall>l \<in> set pre. class_name_of l = None)
     \<and> (fst (file_output v d f) = pre
          \<and> snd (file_output v d f) \<noteq> None
        \<or> fst (file_output v d f)
             = pre @ fst (snd (output_roots d f (sort_key fst (resources f)) []))
          \<and> snd (file_output v d f)
             = snd (snd (output_roots d f (sort_key fst (resources f)) [])))"
proof (cases "snd (output_tags f)")
  case (Some e)
  let ?pre = "Banner v # fst (output_imports f) @ fst (output_tags f)"
  have "\<forall>l \<in> set ?pre. class_name_of l = None"
    using plain_imports[of f] plain_tags[of f] by auto
  moreover have "fst (file_output v d f) = ?pre" "snd (file_output v d f) \<noteq> None"
    using Some by (simp_all add: file_output_fst file_output_snd)
  ultimately show ?thesis by blast
next
  case None
  show ?thesis
  proof (cases "snd (output_validators f)")
    case (Some e)
    let ?pre = "Banner v # fst (output_imports f) @ fst (output_tags f)
                  @ fst (output_validators f)"
    have "\<forall>l \<in> set ?pre. class_name_of l = None"
      using plain_imports[of f] plain_tags[of f] plain_validators[of f] by auto
    moreover have "fst (file_output v d f) = ?pre" "snd (file_output v d f) \<noteq> None"
      using None Some by (simp_all add: file_output_fst file_output_snd)
    ultimately show ?thesis by blast
  next
    case N2: None
    let ?pre = "Banner v # fst (output_imports f) @ fst (output_tags f)
                  @ fst (output_validators f) @ fst (output_header f)"
    have "\<forall>l \<in> set ?pre. class_name_of l = None"
      using plain_imports[of f] plain_tags[of f] plain_validators[of f] plain_header[of f]
      by auto
    moreover have "fst (file_output v d f)
             = ?pre @ fst (snd (output_roots d f (sort_key fst (resources f)) []))"
      "snd (file_output v d f)
             = snd (snd (output_roots d f (sort_key fst (resources f)) []))"
      using None N2 by (simp_all add: file_output_fst file_output_snd)
    ultimately show ?thesis by blast
  qed
qed

lemma distinct_count_list_one: "distinct xs \<Longrightarrow> x \<in> set xs \<Longrightarrow> count_list xs x = 1"
  by (induction xs) (auto simp: count_list_0_iff)

section \<open>Emission order and at-most-once emission\<close>

lemma file_output_roots_inv:
  "roots_inv d f (sort_key fst (resources f)) []
     (class_names (fst (snd (output_roots d f (sort_key fst (resources f)) []))),
      fst (snd (output_roots d f (sort_key fst (resources f)) [])),
      snd (snd (output_roots d f (sort_key fst (resources f)) [])))"
proof -
  let ?r = "output_roots d f (sort_key fst (resources f)) []"
  obtain s out err where r: "?r = (s, out, err)" by (cases ?r)
  have "roots_inv d f (sort_key fst (resources f)) [] ?r" by (rule output_roots_inv)
  with r have i: "roots_inv d f (sort_key fst (resources f)) [] (s, out, err)" by simp
  then have "s = class_names out" unfolding roots_inv_def prod.case by simp
  with i r show ?thesis by simp
qed

text \<open>
  C2. The names of the definitions rendered by \<^verbatim>\<open>File.output\<close> are pairwise
  distinct, whether or not the run fails. When the run does not fail, the name of
  every resource of the grouping, and every name that a resource reaches through
  its references and the property table, however many resources reach it, is
  rendered exactly once.
\<close>

theorem each_definition_rendered_once:
  "distinct (class_names (fst (file_output v d f)))
   \<and> (snd (file_output v d f) = None \<longrightarrow>
        (\<forall>cn ps. (cn, ps) \<in> set (resources f) \<longrightarrow>
           count_list (class_names (fst (file_output v d f))) cn = 1
           \<and> (\<forall>B. reaches (properties f) ps B \<longrightarrow>
                 count_list (class_names (fst (file_output v d f))) B = 1)))"
proof -
  let ?out = "fst (snd (output_roots d f (sort_key fst (resources f)) []))"
  let ?err = "snd (snd (output_roots d f (sort_key fst (resources f)) []))"
  let ?names = "class_names (fst (file_output v d f))"
  from file_output_roots_inv[of d f]
  have dist: "distinct (class_names ?out)"
    and mem: "?err = None \<longrightarrow>
             (\<forall>cn ps. (cn, ps) \<in> set (sort_key fst (resources f)) \<longrightarrow>
                (\<exists>rn t. build_tree d (properties f) cn ps (Some rn) = Inr t
                        \<and> node_name ` set (nodes t) \<subseteq> set (class_names ?out)))"
    unfolding roots_inv_def prod.case by simp_all
  from file_output_split[of v d f] obtain pre where
    plain: "\<forall>l \<in> set pre. class_name_of l = None"
    and cases: "fst (file_output v d f) = pre \<and> snd (file_output v d f) \<noteq> None
        \<or> fst (file_output v d f) = pre @ ?out \<and> snd (file_output v d f) = ?err"
    by blast
  have pn: "class_names pre = []" using plain by (rule plain_names)
  from cases show ?thesis
  proof
    assume "fst (file_output v d f) = pre \<and> snd (file_output v d f) \<noteq> None"
    with pn show ?thesis by auto
  next
    assume a: "fst (file_output v d f) = pre @ ?out \<and> snd (file_output v d f) = ?err"
    with pn have n: "?names = class_names ?out" by simp
    have d1: "distinct ?names" using n dist by simp
    have "count_list ?names cn = 1
           \<and> (\<forall>B. reaches (properties f) ps B \<longrightarrow> count_list ?names B = 1)"
      if ok: "snd (file_output v d f) = None" and i: "(cn, ps) \<in> set (resources f)" for cn ps
    proof -
      from ok a have "?err = None" by simp
      moreover from i have "(cn, ps) \<in> set (sort_key fst (resources f))" by simp
      ultimately obtain rn t where b: "build_tree d (properties f) cn ps (Some rn) = Inr t"
        and sub: "node_name ` set (nodes t) \<subseteq> set (class_names ?out)"
        using mem by blast
      from build_tree_root_node[OF b] sub n have "cn \<in> set ?names" by auto
      with d1 have c1: "count_list ?names cn = 1" by (rule distinct_count_list_one)
      have c2: "\<forall>B. reaches (properties f) ps B \<longrightarrow> count_list ?names B = 1"
      proof (intro allI impI)
        fix B assume "reaches (properties f) ps B"
        from build_tree_reaches_node[OF this b] sub n have "B \<in> set ?names" by auto
        with d1 show "count_list ?names B = 1" by (rule distinct_count_list_one)
      qed
      from c1 c2 show ?thesis by blast
    qed
    with d1 show ?thesis by blast
  qed
qed

theorem each_definition_rendered_once_witness:
  "snd (file_output ''1.0'' 5 file_shared) = None
   \<and> class_names (fst (file_output ''1.0'' 5 file_shared)) = [''Shared'', ''Alpha'', ''Baz'']
   \<and> distinct (class_names (fst (file_output ''1.0'' 5 file_shared)))
   \<and> count_list (class_names (fst (file_output ''1.0'' 5 file_shared))) ''Baz'' = 1
   \<and> count_list (class_names (fst (file_output ''1.0'' 5 file_shared))) ''Shared'' = 1"
proof -
  have ok: "snd (file_output ''1.0'' 5 file_shared) = None" by code_simp
  have nm: "class_names (fst (file_output ''1.0'' 5 file_shared)) = [''Shared'', ''Alpha'', ''Baz'']"
    by code_simp
  have i: "(''Baz'', [(''Y'', desc None (Some ''Shared'') None None (Some False))])
             \<in> set (resources file_shared)"
    by (simp add: file_shared_def)
  have "references [(''Y'', desc None (Some ''Shared'') None None (Some False))] ''Shared''"
    by (simp add: references_def desc_def get_property_type_def)
  then have r: "reaches (properties file_shared)
                  [(''Y'', desc None (Some ''Shared'') None None (Some False))] ''Shared''"
    by (rule reaches_direct)
  from each_definition_rendered_once[of "''1.0''" 5 file_shared] ok i r
  have "distinct (class_names (fst (file_output ''1.0'' 5 file_shared)))
      \<and> count_list (class_names (fst (file_output ''1.0'' 5 file_shared))) ''Baz'' = 1
      \<and> count_list (class_names (fst (file_output ''1.0'' 5 file_shared))) ''Shared'' = 1"
    by blast
  with ok nm show ?thesis by blast
qed




section \<open>The Tags field and the Tags import\<close>

lemma get_validator_explicit:
  "k \<noteq> ''validator'' \<Longrightarrow>
   get_validator ov cn k = Inr (map_option (lstrip ''common/'') (explicit_validator ov cn k))"
  by (auto simp: get_validator_def explicit_validator_def except_KeyError_def
      bind_err_def override_classes_def getitem_def map_of_class_items item_validator_def
      override_truthy_def
      split: if_splits option.splits sum.splits)

lemma get_validator_tags_None:
  "(get_validator ov cn ''Tags'' = Inr None) = (explicit_validator ov cn ''Tags'' = None)"
  by (simp add: get_validator_explicit)













section \<open>Malformed field descriptors\<close>

lemma output_fields_first_failure:
  assumes "snd (output_fields ov cn xs) = Some e"
  shows "\<exists>pre k' v' post entries.
           xs = pre @ (k', v') # post
         \<and> field_facts ov cn k' v' = Inl e
         \<and> fst (output_fields ov cn xs) = entries
         \<and> list_all2 (\<lambda>l (k0, v0). \<exists>vt r. field_facts ov cn k0 v0 = Inr (vt, r)
                         \<and> (l = FieldLine k0 vt r \<or> l = FieldLineWrapped k0 vt r)) entries pre"
  using assms
proof (induction xs)
  case Nil
  then show ?case by simp
next
  case (Cons a xs)
  obtain k v where a: "a = (k, v)" by (cases a)
  show ?case
  proof (cases "field_facts ov cn k v")
    case (Inl e')
    with Cons.prems a have e: "e' = e" and o: "fst (output_fields ov cn (a # xs)) = []"
      by simp_all
    have "a # xs = [] @ (k, v) # xs" using a by simp
    moreover have "field_facts ov cn k v = Inl e" using Inl e by simp
    moreover have "list_all2 (\<lambda>l (k0, v0). \<exists>vt r. field_facts ov cn k0 v0 = Inr (vt, r)
                         \<and> (l = FieldLine k0 vt r \<or> l = FieldLineWrapped k0 vt r)) [] []"
      by simp
    ultimately show ?thesis using o by blast
  next
    case (Inr p)
    obtain vt r where p: "p = (vt, r)" by (cases p)
    let ?l = "if length k + length vt < 55 then FieldLine k vt r else FieldLineWrapped k vt r"
    from Cons.prems a Inr p have s: "snd (output_fields ov cn xs) = Some e"
      by (simp add: snd_then_out)
    from Cons.IH[OF s] obtain pre k' v' post entries where
      x: "xs = pre @ (k', v') # post" and f: "field_facts ov cn k' v' = Inl e"
      and o: "fst (output_fields ov cn xs) = entries"
      and l: "list_all2 (\<lambda>l (k0, v0). \<exists>vt r. field_facts ov cn k0 v0 = Inr (vt, r)
                         \<and> (l = FieldLine k0 vt r \<or> l = FieldLineWrapped k0 vt r)) entries pre"
      by blast
    have x': "a # xs = ((k, v) # pre) @ (k', v') # post" using a x by simp
    have o': "fst (output_fields ov cn (a # xs)) = ?l # entries"
      using a Inr p o by (simp add: fst_then_out)
    have hd: "\<exists>vt' r'. field_facts ov cn k v = Inr (vt', r')
                \<and> (?l = FieldLine k vt' r' \<or> ?l = FieldLineWrapped k vt' r')"
      using Inr p by auto
    have l': "list_all2 (\<lambda>l (k0, v0). \<exists>vt r. field_facts ov cn k0 v0 = Inr (vt, r)
                         \<and> (l = FieldLine k0 vt r \<or> l = FieldLineWrapped k0 vt r))
                (?l # entries) ((k, v) # pre)"
      using hd l by simp
    from x' f o' l' show ?thesis by blast
  qed
qed

lemma output_fields_snd_cases:
  "snd (output_fields ov cn xs) \<noteq> None \<Longrightarrow> \<exists>e. snd (output_fields ov cn xs) = Some e"
  by (cases "snd (output_fields ov cn xs)") simp_all

text \<open>
  C8, amended. A malformed descriptor that carries no PrimitiveType, under a field
  name other than \<^verbatim>\<open>Tags\<close>, makes \<open>output_class\<close> of the containing definition
  raise: at the first field, in key order, whose resolution raises, which is the
  malformed field or one sorted before it. What was printed before stays in the
  output: the two blank lines, the header of the definition, the opening of the
  field table and one entry for each field sorted before the failing one, in
  order; nothing follows them, and the field table is never closed.
\<close>

theorem malformed_field_fails_after_partial_output:
  assumes "malformed v" and "PrimitiveType v = None" and "k \<noteq> ''Tags''" and "(k, v) \<in> set ps"
  shows "\<exists>pre k' v' post e lb mx entries.
           sort_key fst ps = pre @ (k', v') # post
         \<and> (k, v) \<in> set ((k', v') # post)
         \<and> field_facts ov cn k' v' = Inl e
         \<and> list_all2 (\<lambda>l (k0, v0). \<exists>vt r. field_facts ov cn k0 v0 = Inr (vt, r)
                         \<and> (l = FieldLine k0 vt r \<or> l = FieldLineWrapped k0 vt r)) entries pre
         \<and> output_class cn ps ov rn =
             ([Blank, Blank]
              @ (case rn of
                   None \<Rightarrow> [ClassProperty cn lb mx]
                 | Some r \<Rightarrow> if r = '''' then [ClassProperty cn lb mx]
                             else [ClassObject cn lb mx, ResourceType r, Blank])
              @ [PropsOpen] @ entries, Some e)
         \<and> PropsClose \<notin> set (fst (output_class cn ps ov rn))"
proof -
  have ff: "field_facts ov cn k v = Inl KeyError"
    using assms(1-3) by (rule field_facts_malformed)
  have mem: "(k, v) \<in> set (sort_key fst ps)" using assms(4) by simp
  from mem ff have "snd (output_fields ov cn (sort_key fst ps)) \<noteq> None"
    by (rule output_fields_fails)
  then obtain e where e: "snd (output_fields ov cn (sort_key fst ps)) = Some e"
    using output_fields_snd_cases by blast
  from output_fields_first_failure[OF e] obtain pre k' v' post entries where
    x: "sort_key fst ps = pre @ (k', v') # post" and f: "field_facts ov cn k' v' = Inl e"
    and o: "fst (output_fields ov cn (sort_key fst ps)) = entries"
    and l: "list_all2 (\<lambda>l (k0, v0). \<exists>vt r. field_facts ov cn k0 v0 = Inr (vt, r)
                         \<and> (l = FieldLine k0 vt r \<or> l = FieldLineWrapped k0 vt r)) entries pre"
    by blast
  have np: "(k, v) \<notin> set pre"
  proof
    assume "(k, v) \<in> set pre"
    then obtain i where i: "i < length pre" and pi: "pre ! i = (k, v)"
      by (auto simp: in_set_conv_nth)
    from l i have "(\<lambda>l (k0, v0). \<exists>vt r. field_facts ov cn k0 v0 = Inr (vt, r)
                         \<and> (l = FieldLine k0 vt r \<or> l = FieldLineWrapped k0 vt r))
                     (entries ! i) (pre ! i)"
      by (simp add: list_all2_conv_all_nth)
    with pi ff show False by simp
  qed
  from mem x np have at: "(k, v) \<in> set ((k', v') # post)" by auto
  from output_class_fst[of cn ps ov rn] obtain lb mx where
    eq: "fst (output_class cn ps ov rn) =
     [Blank, Blank]
     @ (case rn of
          None \<Rightarrow> [ClassProperty cn lb mx]
        | Some r \<Rightarrow> if r = '''' then [ClassProperty cn lb mx]
                    else [ClassObject cn lb mx, ResourceType r, Blank])
     @ [PropsOpen]
     @ fst (output_fields ov cn (sort_key fst ps))
     @ (case snd (output_fields ov cn (sort_key fst ps)) of
          None \<Rightarrow> [PropsClose] | Some e \<Rightarrow> [])"
    by blast
  obtain cv where cv: "get_class_validator ov cn = Inr cv"
    using get_class_validator_total by blast
  have sn: "snd (output_class cn ps ov rn) = Some e"
    unfolding output_class_def Let_def cv
    by (simp add: snd_then_out e split: option.split)
  from eq e o have fs: "fst (output_class cn ps ov rn) =
     [Blank, Blank]
     @ (case rn of
          None \<Rightarrow> [ClassProperty cn lb mx]
        | Some r \<Rightarrow> if r = '''' then [ClassProperty cn lb mx]
                    else [ClassObject cn lb mx, ResourceType r, Blank])
     @ [PropsOpen] @ entries"
    by simp
  from fs sn have oc: "output_class cn ps ov rn =
             ([Blank, Blank]
              @ (case rn of
                   None \<Rightarrow> [ClassProperty cn lb mx]
                 | Some r \<Rightarrow> if r = '''' then [ClassProperty cn lb mx]
                             else [ClassObject cn lb mx, ResourceType r, Blank])
              @ [PropsOpen] @ entries, Some e)"
    by (cases "output_class cn ps ov rn") simp
  have "snd (output_fields ov cn (sort_key fst ps)) \<noteq> None" using e by simp
  then have nc: "PropsClose \<notin> set (fst (output_class cn ps ov rn))"
    using output_class_fails by blast
  from x at f l oc nc show ?thesis by blast
qed

text \<open>
  C8, as the claim states it, fails in a run of \<^verbatim>\<open>File.output\<close>. A List without
  ItemType and PrimitiveItemType in a field \<^verbatim>\<open>C\<close>, sorted after a Boolean and an
  Integer field, passes \<^verbatim>\<open>_walk_for_type\<close> (both scans return at the earlier
  fields) and \<^verbatim>\<open>build_tree\<close> (\<^verbatim>\<open>_get_property_type\<close> returns None for it); the
  run raises KeyError in \<open>output_class\<close> after the header of the definition and the
  entries of \<^verbatim>\<open>A\<close> and \<^verbatim>\<open>B\<close> have been printed. The same descriptor under the
  field name \<^verbatim>\<open>Tags\<close> does not fail the run at all, and neither does a List
  without item type that also carries a PrimitiveType.
\<close>

theorem malformed_field_counterexample:
  "malformed (desc None (Some ''List'') None None (Some True))
   \<and> file_output ''1.0'' 5
        (file_of_fields (fields_ab @ [(''C'', desc None (Some ''List'') None None (Some True))]))
     = ([Banner ''1.0'', ImportAWSObject, ImportBoolean, ImportInteger,
         Blank, Blank, ClassObject ''K'' [] [], ResourceType ''AWS::Foo::K'', Blank, PropsOpen,
         FieldLine ''A'' ''boolean'' True, FieldLine ''B'' ''integer'' True], Some KeyError)
   \<and> file_output ''1.0'' 5
        (file_of_fields (fields_ab @ [(''Tags'', desc None (Some ''List'') None None (Some True))]))
     = ([Banner ''1.0'', ImportAWSObject, ImportTags, ImportBoolean, ImportInteger,
         Blank, Blank, ClassObject ''K'' [] [], ResourceType ''AWS::Foo::K'', Blank, PropsOpen,
         FieldLine ''A'' ''boolean'' True, FieldLine ''B'' ''integer'' True,
         FieldLine ''Tags'' ''Tags'' True, PropsClose], None)
   \<and> malformed (desc (Some ''String'') (Some ''List'') None None (Some True))
   \<and> file_output ''1.0'' 5
        (file_of_fields (fields_ab
           @ [(''C'', desc (Some ''String'') (Some ''List'') None None (Some True))]))
     = ([Banner ''1.0'', ImportAWSObject, ImportBoolean, ImportInteger,
         Blank, Blank, ClassObject ''K'' [] [], ResourceType ''AWS::Foo::K'', Blank, PropsOpen,
         FieldLine ''A'' ''boolean'' True, FieldLine ''B'' ''integer'' True,
         FieldLine ''C'' ''basestring'' True, PropsClose], None)"
  by code_simp

theorem malformed_field_fails_after_partial_output_witness:
  "malformed (desc None (Some ''List'') None None (Some True))
   \<and> PrimitiveType (desc None (Some ''List'') None None (Some True)) = None
   \<and> ''C'' \<noteq> ''Tags''
   \<and> (''C'', desc None (Some ''List'') None None (Some True))
        \<in> set (fields_ab @ [(''C'', desc None (Some ''List'') None None (Some True))])
   \<and> (\<exists>pre k' v' post e lb mx entries.
           sort_key fst (fields_ab @ [(''C'', desc None (Some ''List'') None None (Some True))])
             = pre @ (k', v') # post
         \<and> (''C'', desc None (Some ''List'') None None (Some True)) \<in> set ((k', v') # post)
         \<and> field_facts empty_override ''K'' k' v' = Inl e
         \<and> list_all2 (\<lambda>l (k0, v0). \<exists>vt r. field_facts empty_override ''K'' k0 v0 = Inr (vt, r)
                         \<and> (l = FieldLine k0 vt r \<or> l = FieldLineWrapped k0 vt r)) entries pre
         \<and> output_class ''K''
               (fields_ab @ [(''C'', desc None (Some ''List'') None None (Some True))])
               empty_override (Some ''AWS::Foo::K'') =
             ([Blank, Blank]
              @ (case Some ''AWS::Foo::K'' of
                   None \<Rightarrow> [ClassProperty ''K'' lb mx]
                 | Some r \<Rightarrow> if r = '''' then [ClassProperty ''K'' lb mx]
                             else [ClassObject ''K'' lb mx, ResourceType r, Blank])
              @ [PropsOpen] @ entries, Some e)
         \<and> PropsClose \<notin> set (fst (output_class ''K''
               (fields_ab @ [(''C'', desc None (Some ''List'') None None (Some True))])
               empty_override (Some ''AWS::Foo::K''))))
   \<and> output_class ''K''
         (fields_ab @ [(''C'', desc None (Some ''List'') None None (Some True))])
         empty_override (Some ''AWS::Foo::K'')
       = ([Blank, Blank, ClassObject ''K'' [] [], ResourceType ''AWS::Foo::K'', Blank, PropsOpen,
           FieldLine ''A'' ''boolean'' True, FieldLine ''B'' ''integer'' True], Some KeyError)"
proof -
  let ?v = "desc None (Some ''List'') None None (Some True)"
  have m: "malformed ?v"
    by (simp add: malformed_def desc_def)
  have p: "PrimitiveType ?v = None"
    by (simp add: desc_def)
  have k: "''C'' \<noteq> ''Tags''" by simp
  have i: "(''C'', ?v) \<in> set (fields_ab @ [(''C'', ?v)])" by simp
  have c: "output_class ''K'' (fields_ab @ [(''C'', ?v)]) empty_override (Some ''AWS::Foo::K'')
       = ([Blank, Blank, ClassObject ''K'' [] [], ResourceType ''AWS::Foo::K'', Blank, PropsOpen,
           FieldLine ''A'' ''boolean'' True, FieldLine ''B'' ''integer'' True], Some KeyError)"
    by code_simp
  note t = malformed_field_fails_after_partial_output[OF m p k i,
      of empty_override "''K''" "Some ''AWS::Foo::K''"]
  from m p k i t c show ?thesis by blast
qed

section \<open>Independence of the iteration order of the dicts, and the order of emission\<close>

lemma map_of_filter_key:
  "map_of xs k = (case filter (\<lambda>y. fst y = k) xs of [] \<Rightarrow> None | y # ys \<Rightarrow> Some (snd y))"
  by (induction xs) auto

lemma map_of_sort_key: "map_of (sort_key fst xs) k = map_of xs k"
  by (simp add: map_of_filter_key[of _ k] sort_key_stable)

lemma getitem_sort_key: "getitem (sort_key fst xs) k = getitem xs k"
  by (simp add: getitem_def map_of_sort_key)

lemma insort_key_map_same:
  "(\<And>x. f (g x) = f x) \<Longrightarrow> insort_key f (g x) (map g ys) = map g (insort_key f x ys)"
  by (induction ys) simp_all

lemma sort_key_map_same:
  "(\<And>x. f (g x) = f x) \<Longrightarrow> sort_key f (map g xs) = map g (sort_key f xs)"
  by (induction xs) (simp_all add: insort_key_map_same)

lemma canon_table_map:
  "canon_table tbl = map (\<lambda>(k, ps). (k, canon_props ps)) (sort_key fst tbl)"
  unfolding canon_table_def by (rule sort_key_map_same) (simp add: split_def)

lemma sort_key_canon_props: "sort_key fst (canon_props ps) = sort_key fst ps"
  by (simp add: canon_props_def sort_key_id_if_sorted)

lemma sort_key_canon_table: "sort_key fst (canon_table tbl) = canon_table tbl"
  by (simp add: canon_table_def sort_key_id_if_sorted)

lemma getitem_canon_table:
  "getitem (canon_table tbl) k = bind_err (getitem tbl k) (\<lambda>ps. Inr (canon_props ps))"
proof -
  have "map_of (canon_table tbl) k = map_option canon_props (map_of tbl k)"
    by (simp add: canon_table_def map_of_sort_key map_of_map)
  then show ?thesis by (simp add: getitem_def bind_err_def split: option.splits)
qed

lemma canon_table_Nil: "(canon_table tbl = []) = (tbl = [])"
  by (simp add: canon_table_map) (metis set_sort set_empty)

lemma collect_types_eq:
  "collect_types ps acc =
     (if list_all (\<lambda>kv. typed (snd kv)) ps
      then Inr (acc @ List.map_filter property_type_of ps) else Inl KeyError)"
proof (induction ps arbitrary: acc)
  case Nil
  then show ?case by (simp add: map_filter_def)
next
  case (Cons a ps)
  obtain k v where a: "a = (k, v)" by (cases a)
  show ?case
  proof (cases "get_property_type v")
    case (Inl e)
    then have "e = KeyError" "\<not> typed v" by (simp_all add: get_property_type_Inl)
    with Inl a show ?thesis by (simp add: bind_err_def)
  next
    case (Inr t)
    then have "typed v" using get_property_type_Inl[of v] by (cases "typed v") auto
    with Inr a Cons.IH show ?thesis
      by (cases t) (simp_all add: bind_err_def map_filter_def property_type_of_def)
  qed
qed

lemma sort_mset_cong: "mset xs = mset ys \<Longrightarrow> sort xs = sort ys"
  by (rule properties_for_sort) simp_all

lemma mset_map_filter: "mset (List.map_filter g xs) = image_mset (\<lambda>x. the (g x)) (filter_mset (\<lambda>x. g x \<noteq> None) (mset xs))"
  by (simp add: map_filter_def comp_def)

lemma get_type_list_perm:
  assumes "mset ps = mset ps'"
  shows "get_type_list ps = get_type_list ps'"
proof -
  from assms have s: "set ps = set ps'" by (rule mset_eq_setD)
  have a: "list_all (\<lambda>kv. typed (snd kv)) ps = list_all (\<lambda>kv. typed (snd kv)) ps'"
    by (simp add: list_all_iff s)
  have "mset (List.map_filter property_type_of ps) = mset (List.map_filter property_type_of ps')"
    by (simp add: mset_map_filter assms)
  then have "sort (List.map_filter property_type_of ps) = sort (List.map_filter property_type_of ps')"
    by (rule sort_mset_cong)
  with a show ?thesis
    by (simp add: get_type_list_def collect_types_eq bind_err_def)
qed

lemma get_type_list_canon: "get_type_list (canon_props ps) = get_type_list ps"
  by (rule get_type_list_perm) (simp add: canon_props_def)

lemma add_child_canon: "add_child (canon_node n) (canon_node c) = canon_node (add_child n c)"
  by (cases n) (simp add: add_child_def)

lemma build_tree_canon:
  "build_tree d (canon_table tbl) nm (canon_props ps) rn
     = bind_err (build_tree d tbl nm ps rn) (\<lambda>t. Inr (canon_node t))"
  "build_children d (canon_table tbl) tys (canon_node n)
     = bind_err (build_children d tbl tys n) (\<lambda>t. Inr (canon_node t))"
proof (induction d tbl nm ps rn and d tbl tys n rule: build_tree_build_children.induct)
  case (1 tbl nm ps rn)
  show ?case by (simp add: bind_err_def)
next
  case (2 d tbl nm ps rn)
  show ?case
  proof (cases "get_type_list ps")
    case (Inl e)
    then show ?thesis by (simp add: get_type_list_canon bind_err_def)
  next
    case (Inr tys)
    show ?thesis
    proof (cases "tys = []")
      case True
      with Inr show ?thesis by (simp add: get_type_list_canon bind_err_def)
    next
      case False
      from 2[OF False] have
        "build_children d (canon_table tbl) (sort tys) (canon_node (Node nm ps rn []))
           = bind_err (build_children d tbl (sort tys) (Node nm ps rn [])) (\<lambda>t. Inr (canon_node t))" .
      with Inr False show ?thesis by (simp add: get_type_list_canon bind_err_def)
    qed
  qed
next
  case (3 d tbl n)
  show ?case by (simp add: bind_err_def)
next
  case (4 d tbl prop_name rest n)
  show ?case
  proof (cases "prop_name = ''Tag''")
    case True
    with 4(1) show ?thesis by (simp add: bind_err_def)
  next
    case False
    show ?thesis
    proof (cases "getitem tbl prop_name")
      case (Inl e)
      with False show ?thesis by (simp add: getitem_canon_table bind_err_def)
    next
      case (Inr ps)
      note ih1 = 4(2)[OF False]
      show ?thesis
      proof (cases "build_tree d tbl prop_name ps None")
        case (Inl e)
        with False Inr ih1 show ?thesis by (simp add: getitem_canon_table bind_err_def)
      next
        case c: (Inr child)
        note ih2 = 4(3)[OF False]
        from False Inr c ih1 ih2 show ?thesis
          by (simp add: getitem_canon_table bind_err_def add_child_canon)
      qed
    qed
  qed
qed

lemma override_truthy_canon: "override_truthy (canon_override ov) = override_truthy ov"
  by (simp add: override_truthy_def canon_override_def)

lemma get_header_canon: "get_header (canon_override ov) = get_header ov"
  by (simp add: get_header_def canon_override_def)

lemma field_entries_canon: "field_entries (canon_class ce) = sort_key fst (field_entries ce)"
  by (simp add: field_entries_def canon_class_def filter_sort)

lemma getitem_class_items_canon:
  "getitem (class_items (canon_class ce)) k = getitem (class_items ce) k"
proof -
  have "co_validator (canon_class ce) = co_validator ce" by (simp add: canon_class_def)
  then have "map_of (class_items (canon_class ce)) k = map_of (class_items ce) k"
    by (simp add: map_of_class_items field_entries_canon map_of_sort_key)
  then show ?thesis by (simp add: getitem_def)
qed

lemma getitem_canon_classes:
  "getitem (sort_key fst (map (\<lambda>(k, ce). (k, canon_class ce)) cs)) cn
     = bind_err (getitem cs cn) (\<lambda>ce. Inr (canon_class ce))"
proof -
  have "map_of (sort_key fst (map (\<lambda>(k, ce). (k, canon_class ce)) cs)) cn
          = map_option canon_class (map_of cs cn)"
    by (simp add: map_of_sort_key map_of_map)
  then show ?thesis by (simp add: getitem_def bind_err_def split: option.splits)
qed

lemma lookup_canon:
  assumes "\<And>ce. G (canon_class ce) = G ce"
  shows "bind_err (override_classes (canon_override ov)) (\<lambda>cs. bind_err (getitem cs cn) G)
       = bind_err (override_classes ov) (\<lambda>cs. bind_err (getitem cs cn) G)"
proof (cases "od_classes ov")
  case None
  then show ?thesis by (simp add: override_classes_def canon_override_def)
next
  case (Some cs)
  then show ?thesis
    by (cases "getitem cs cn")
       (simp_all add: override_classes_def canon_override_def bind_err_def
          getitem_canon_classes assms)
qed

lemma get_validator_canon: "get_validator (canon_override ov) cn k = get_validator ov cn k"
proof -
  have "bind_err (override_classes (canon_override ov)) (\<lambda>cs. bind_err (getitem cs cn)
          (\<lambda>ce. bind_err (getitem (class_items ce) k) (\<lambda>x.
             bind_err (item_validator x) (\<lambda>v. Inr (lstrip ''common/'' v)))))
      = bind_err (override_classes ov) (\<lambda>cs. bind_err (getitem cs cn)
          (\<lambda>ce. bind_err (getitem (class_items ce) k) (\<lambda>x.
             bind_err (item_validator x) (\<lambda>v. Inr (lstrip ''common/'' v)))))"
    by (rule lookup_canon) (simp add: getitem_class_items_canon)
  then show ?thesis by (simp add: get_validator_def override_truthy_canon)
qed

lemma override_get_required_canon:
  "override_get_required (canon_override ov) cn k = override_get_required ov cn k"
proof -
  have "bind_err (override_classes (canon_override ov)) (\<lambda>cs. bind_err (getitem cs cn)
          (\<lambda>ce. bind_err (getitem (class_items ce) k) item_required))
      = bind_err (override_classes ov) (\<lambda>cs. bind_err (getitem cs cn)
          (\<lambda>ce. bind_err (getitem (class_items ce) k) item_required))"
    by (rule lookup_canon) (simp add: getitem_class_items_canon)
  then show ?thesis by (simp add: override_get_required_def override_truthy_canon)
qed

lemma get_class_validator_canon:
  "get_class_validator (canon_override ov) cn = get_class_validator ov cn"
proof -
  have "bind_err (override_classes (canon_override ov)) (\<lambda>cs. bind_err (getitem cs cn)
          (\<lambda>ce. bind_err (getitem (class_items ce) ''validator'') item_lstrip))
      = bind_err (override_classes ov) (\<lambda>cs. bind_err (getitem cs cn)
          (\<lambda>ce. bind_err (getitem (class_items ce) ''validator'') item_lstrip))"
    by (rule lookup_canon) (simp add: getitem_class_items_canon)
  then show ?thesis by (simp add: get_class_validator_def override_truthy_canon)
qed

lemma field_facts_canon: "field_facts (canon_override ov) cn k v = field_facts ov cn k v"
  by (simp add: field_facts_def get_validator_canon override_get_required_canon)

lemma output_fields_canon: "output_fields (canon_override ov) cn xs = output_fields ov cn xs"
proof (induction xs)
  case Nil
  show ?case by simp
next
  case (Cons a xs)
  obtain k v where a: "a = (k, v)" by (cases a)
  from Cons a show ?case
    by (cases "field_facts ov cn k v") (simp_all add: field_facts_canon)
qed

lemma output_class_canon:
  "output_class cn (canon_props ps) (canon_override ov) rn = output_class cn ps ov rn"
  by (cases "get_class_validator ov cn")
     (simp_all add: output_class_def get_class_validator_canon output_fields_canon
        sort_key_canon_props)

lemma output_tree_canon:
  "output_tree (canon_override ov) (canon_node t) seen = output_tree ov t seen"
  "output_trees (canon_override ov) (map canon_node cs) seen = output_trees ov cs seen"
proof (induction ov t seen and ov cs seen rule: output_tree_output_trees.induct)
  case (1 ov nm ps rn cs seen)
  obtain s1 o1 e1 where o: "output_trees ov cs seen = (s1, o1, e1)"
    by (cases "output_trees ov cs seen")
  from 1 o show ?case by (cases e1) (simp_all add: output_class_canon)
next
  case (2 ov seen)
  show ?case by simp
next
  case (3 ov c cs seen)
  obtain s1 o1 e1 where o: "output_tree ov c seen = (s1, o1, e1)"
    by (cases "output_tree ov c seen")
  show ?case
  proof (cases e1)
    case None
    from 3(2)[OF o[symmetric] refl None] 3(1) o None show ?thesis by simp
  next
    case (Some e)
    with 3(1) o show ?thesis by simp
  qed
qed

lemma tags_in_props_canon:
  "tags_in_props (canon_override ov) cn xs = tags_in_props ov cn xs"
proof (induction xs)
  case Nil
  show ?case by simp
next
  case (Cons a xs)
  obtain k v where a: "a = (k, v)" by (cases a)
  from Cons a show ?case
    by (cases "get_validator ov cn k") (simp_all add: get_validator_canon bind_err_def)
qed

lemma tags_in_classes_canon:
  "tags_in_classes (canon_override ov) (map (\<lambda>(k, ps). (k, canon_props ps)) xs)
     = tags_in_classes ov xs"
proof (induction xs)
  case Nil
  show ?case by simp
next
  case (Cons a xs)
  obtain cn ps where a: "a = (cn, ps)" by (cases a)
  from Cons a show ?case
    by (cases "tags_in_props ov cn (sort_key fst ps)")
       (simp_all add: tags_in_props_canon sort_key_canon_props bind_err_def)
qed

lemma type_in_classes_canon:
  "type_in_classes ct (map (\<lambda>(k, ps). (k, canon_props ps)) xs) = type_in_classes ct xs"
proof (induction xs)
  case Nil
  show ?case by simp
next
  case (Cons a xs)
  obtain cn ps where a: "a = (cn, ps)" by (cases a)
  from Cons a show ?case
    by (cases "type_in_props ct (sort_key fst ps)")
       (simp_all add: sort_key_canon_props bind_err_def)
qed

lemma canon_file_sel:
  "filename (canon_file f) = filename f"
  "properties (canon_file f) = canon_table (properties f)"
  "resources (canon_file f) = canon_table (resources f)"
  "resource_names (canon_file f) = sort_key fst (resource_names f)"
  "override (canon_file f) = canon_override (override f)"
  by (simp_all add: canon_file_def)

lemma output_tags_canon: "output_tags (canon_file f) = output_tags f"
proof -
  have r: "tags_in_classes (canon_override (override f)) (sort_key fst (canon_table (resources f)))
         = tags_in_classes (override f) (sort_key fst (resources f))"
    by (simp add: sort_key_canon_table) (simp add: canon_table_map tags_in_classes_canon)
  have p: "tags_in_classes (canon_override (override f)) (sort_key fst (canon_table (properties f)))
         = tags_in_classes (override f) (sort_key fst (properties f))"
    by (simp add: sort_key_canon_table) (simp add: canon_table_map tags_in_classes_canon)
  show ?thesis unfolding output_tags_def canon_file_sel r p by (rule refl)
qed

lemma walk_for_type_canon: "walk_for_type (canon_file f) ct = walk_for_type f ct"
proof -
  have r: "type_in_classes ct (sort_key fst (canon_table (resources f)))
         = type_in_classes ct (sort_key fst (resources f))"
    by (simp add: sort_key_canon_table) (simp add: canon_table_map type_in_classes_canon)
  have p: "type_in_classes ct (sort_key fst (canon_table (properties f)))
         = type_in_classes ct (sort_key fst (properties f))"
    by (simp add: sort_key_canon_table) (simp add: canon_table_map type_in_classes_canon)
  show ?thesis unfolding walk_for_type_def canon_file_sel r p by (rule refl)
qed

lemma output_imports_canon: "output_imports (canon_file f) = output_imports f"
  by (simp add: output_imports_def canon_file_sel canon_table_Nil)

lemma output_header_canon: "output_header (canon_file f) = output_header f"
  by (simp add: output_header_def canon_file_sel get_header_canon)

lemma output_roots_canon:
  "output_roots d (canon_file f) (map (\<lambda>(k, ps). (k, canon_props ps)) xs) seen
     = output_roots d f xs seen"
proof (induction xs arbitrary: seen)
  case Nil
  show ?case by simp
next
  case (Cons a xs)
  obtain cn ps where a: "a = (cn, ps)" by (cases a)
  show ?case
  proof (cases "getitem (resource_names f) cn")
    case (Inl e)
    with a show ?thesis by (simp add: canon_file_sel getitem_sort_key)
  next
    case g: (Inr rn)
    show ?thesis
    proof (cases "build_tree d (properties f) cn ps (Some rn)")
      case (Inl e)
      with a g show ?thesis
        by (simp add: canon_file_sel getitem_sort_key build_tree_canon bind_err_def)
    next
      case b: (Inr t)
      obtain s1 o1 e1 where o: "output_tree (override f) t seen = (s1, o1, e1)"
        by (cases "output_tree (override f) t seen")
      from a g b o Cons.IH[of s1] show ?thesis
        by (cases e1)
           (simp_all add: canon_file_sel getitem_sort_key build_tree_canon bind_err_def
              output_tree_canon)
    qed
  qed
qed

lemma fold_vlist_add_distinct: "distinct vl \<Longrightarrow> distinct (fold vlist_add xs vl)"
  by (induction xs arbitrary: vl) (simp_all add: vlist_add_def)

lemma fold_vlist_add_set: "set (fold vlist_add xs vl) = set vl \<union> (set xs - set ignore)"
  by (induction xs arbitrary: vl) (auto simp: vlist_add_def)

lemma class_validators_fold:
  "class_validators cs vl = fold vlist_add (List.map_filter (\<lambda>kc. co_validator (snd kc)) cs) vl"
proof (induction cs arbitrary: vl)
  case Nil
  show ?case by (simp add: map_filter_def)
next
  case (Cons a cs)
  obtain k c where a: "a = (k, c)" by (cases a)
  from Cons a show ?case
    by (cases "co_validator c") (simp_all add: map_filter_def)
qed

lemma item_simps:
  "item_raises (k, CStr s) = str_contains ''validator'' s"
  "item_raises (k, CField fe) = False"
  "item_validator_of (k, CStr s) = None"
  "item_validator_of (k, CField fe) = fo_validator fe"
  by (simp_all add: item_raises_def item_validator_of_def)

lemma item_validators_eq:
  "item_validators items vl =
     (if list_ex item_raises items then Inl TypeError
      else Inr (fold vlist_add (List.map_filter item_validator_of items) vl))"
proof (induction items arbitrary: vl)
  case Nil
  show ?case by (simp add: map_filter_simps)
next
  case (Cons a items)
  obtain k x where a: "a = (k, x)" by (cases a)
  show ?case
  proof (cases x)
    case (CStr s)
    with Cons a show ?thesis
      by (simp add: map_filter_simps item_simps)
  next
    case (CField fe)
    with Cons a show ?thesis
      by (cases "fo_validator fe") (simp_all add: map_filter_simps item_simps)
  qed
qed

lemma field_validators_eq:
  "field_validators cs vl =
     (if list_ex (\<lambda>kc. list_ex item_raises (class_items (snd kc))) cs then Inl TypeError
      else Inr (fold vlist_add
                  (concat (map (\<lambda>kc. List.map_filter item_validator_of (class_items (snd kc))) cs))
                  vl))"
proof (induction cs arbitrary: vl)
  case Nil
  show ?case by simp
next
  case (Cons a cs)
  obtain k c where a: "a = (k, c)" by (cases a)
  from Cons a show ?case
    by (simp add: item_validators_eq bind_err_def)
qed

lemma set_class_items_canon: "set (class_items (canon_class ce)) = set (class_items ce)"
proof -
  have "co_validator (canon_class ce) = co_validator ce" by (simp add: canon_class_def)
  then show ?thesis by (simp add: class_items_def field_entries_canon)
qed

lemma set_map_filter: "set (List.map_filter h xs) = {y. \<exists>x \<in> set xs. h x = Some y}"
  by (induction xs) (auto simp: map_filter_simps split: option.splits)

lemma validators_sorted_eq:
  assumes "field_validators cs (class_validators cs []) = Inr vl"
    and "field_validators cs' (class_validators cs' []) = Inr vl'"
    and "set cs' = (\<lambda>(k, ce). (k, canon_class ce)) ` set cs"
  shows "sort vl = sort vl'"
proof -
  let ?X = "\<lambda>cs. List.map_filter (\<lambda>kc. co_validator (snd kc)) cs"
  let ?Y = "\<lambda>cs. concat (map (\<lambda>kc. List.map_filter item_validator_of (class_items (snd kc))) cs)"
  from assms(1) have vl: "vl = fold vlist_add (?Y cs) (fold vlist_add (?X cs) [])"
    by (simp add: field_validators_eq class_validators_fold split: if_splits)
  from assms(2) have vl': "vl' = fold vlist_add (?Y cs') (fold vlist_add (?X cs') [])"
    by (simp add: field_validators_eq class_validators_fold split: if_splits)
  have d: "distinct vl" "distinct vl'"
    unfolding vl vl' by (simp_all add: fold_vlist_add_distinct)
  have cv: "\<And>ce. co_validator (canon_class ce) = co_validator ce"
    by (simp add: canon_class_def)
  have x: "set (?X cs') = set (?X cs)"
    by (auto simp: set_map_filter assms(3) cv split_def)
  have y: "set (?Y cs') = set (?Y cs)"
    by (auto simp: set_map_filter assms(3) set_class_items_canon split_def)
  have s: "set vl = set vl'"
    unfolding vl vl' fold_vlist_add_set x y by (rule refl)
  have "sort vl = sort vl'"
  proof (rule sorted_distinct_set_unique)
    show "sorted (sort vl)" by simp
    show "distinct (sort vl)" using d by simp
    show "sorted (sort vl')" by simp
    show "distinct (sort vl')" using d by simp
    show "set (sort vl) = set (sort vl')" using s by simp
  qed
  then show ?thesis .
qed

lemma validators_raise_eq:
  assumes "set cs' = (\<lambda>(k, ce). (k, canon_class ce)) ` set cs"
  shows "list_ex (\<lambda>kc. list_ex item_raises (class_items (snd kc))) cs'
       = list_ex (\<lambda>kc. list_ex item_raises (class_items (snd kc))) cs"
  by (auto simp: list_ex_iff assms set_class_items_canon split_def)

lemma get_validator_list_canon: "get_validator_list (canon_override ov) = get_validator_list ov"
proof (cases "od_classes ov")
  case None
  then have "override_classes (canon_override ov) = Inl KeyError"
    "override_classes ov = Inl KeyError"
    by (simp_all add: override_classes_def canon_override_def)
  then show ?thesis
    by (simp add: get_validator_list_def override_truthy_canon)
next
  case (Some cs)
  let ?cs' = "sort_key fst (map (\<lambda>(k, ce). (k, canon_class ce)) cs)"
  have st: "set ?cs' = (\<lambda>(k, ce). (k, canon_class ce)) ` set cs" by simp
  have oc: "override_classes (canon_override ov) = Inr ?cs'" "override_classes ov = Inr cs"
    using Some by (simp_all add: override_classes_def canon_override_def)
  have tr: "override_truthy (canon_override ov)" "override_truthy ov"
    using Some by (simp_all add: override_truthy_def canon_override_def)
  show ?thesis
  proof (cases "list_ex (\<lambda>kc. list_ex item_raises (class_items (snd kc))) cs")
    case True
    with validators_raise_eq[OF st] show ?thesis
      by (simp add: get_validator_list_def oc tr bind_err_def field_validators_eq)
  next
    case False
    with validators_raise_eq[OF st]
    have f': "\<not> list_ex (\<lambda>kc. list_ex item_raises (class_items (snd kc))) ?cs'" by simp
    from False obtain vl where vl: "field_validators cs (class_validators cs []) = Inr vl"
      by (simp add: field_validators_eq)
    from f' obtain vl' where vl': "field_validators ?cs' (class_validators ?cs' []) = Inr vl'"
      by (simp add: field_validators_eq)
    from validators_sorted_eq[OF vl vl' st] have "sort vl = sort vl'" .
    with vl vl' show ?thesis
      by (simp add: get_validator_list_def oc tr bind_err_def)
  qed
qed

lemma output_validators_canon: "output_validators (canon_file f) = output_validators f"
  unfolding output_validators_def canon_file_sel walk_for_type_canon get_validator_list_canon
  by (rule refl)

lemma roots_canon:
  "output_roots d (canon_file f) (sort_key fst (resources (canon_file f))) []
     = output_roots d f (sort_key fst (resources f)) []"
  by (simp add: canon_file_sel sort_key_canon_table)
     (simp add: canon_table_map output_roots_canon)

lemma file_output_canon: "file_output v d (canon_file f) = file_output v d f"
  unfolding file_output_def output_imports_canon output_tags_canon output_validators_canon
    output_header_canon roots_canon
  by (rule refl)

lemma field_keys_simps:
  "field_keys [] = []"
  "field_keys (xs @ ys) = field_keys xs @ field_keys ys"
  "field_keys (FieldLine k vt r # xs) = k # field_keys xs"
  "field_keys (FieldLineWrapped k vt r # xs) = k # field_keys xs"
  "field_key_of l = None \<Longrightarrow> field_keys (l # xs) = field_keys xs"
  by (simp_all add: field_keys_def field_key_of_def map_filter_def)

lemma output_fields_keys_prefix:
  "\<exists>ys. map fst xs = field_keys (fst (output_fields ov cn xs)) @ ys"
proof (induction xs)
  case Nil
  show ?case by (simp add: field_keys_simps)
next
  case (Cons a xs)
  obtain k v where a: "a = (k, v)" by (cases a)
  show ?case
  proof (cases "field_facts ov cn k v")
    case (Inl e)
    with a show ?thesis by (simp add: field_keys_simps)
  next
    case (Inr p)
    obtain vt r where p: "p = (vt, r)" by (cases p)
    from Cons.IH obtain ys where "map fst xs = field_keys (fst (output_fields ov cn xs)) @ ys"
      by blast
    with a Inr p show ?thesis
      by (simp add: fst_then_out field_keys_simps)
  qed
qed

lemma output_class_field_keys:
  "field_keys (fst (output_class cn ps ov rn))
     = field_keys (fst (output_fields ov cn (sort_key fst ps)))"
proof -
  from output_class_fst[of cn ps ov rn] obtain lb mx where
    eq: "fst (output_class cn ps ov rn) =
     [Blank, Blank]
     @ (case rn of
          None \<Rightarrow> [ClassProperty cn lb mx]
        | Some r \<Rightarrow> if r = '''' then [ClassProperty cn lb mx]
                    else [ClassObject cn lb mx, ResourceType r, Blank])
     @ [PropsOpen]
     @ fst (output_fields ov cn (sort_key fst ps))
     @ (case snd (output_fields ov cn (sort_key fst ps)) of
          None \<Rightarrow> [PropsClose] | Some e \<Rightarrow> [])"
    by blast
  show ?thesis
    unfolding eq
    by (simp add: field_keys_simps field_key_of_def split: option.split)
qed

lemma output_class_fields_sorted: "sorted (field_keys (fst (output_class cn ps ov rn)))"
proof -
  obtain ys where
    "map fst (sort_key fst ps) = field_keys (fst (output_fields ov cn (sort_key fst ps))) @ ys"
    using output_fields_keys_prefix by blast
  moreover have "sorted (map fst (sort_key fst ps))" by simp
  ultimately have "sorted (field_keys (fst (output_fields ov cn (sort_key fst ps))) @ ys)"
    by simp
  then have "sorted (field_keys (fst (output_fields ov cn (sort_key fst ps))))"
    by (simp add: sorted_append)
  then show ?thesis by (simp add: output_class_field_keys)
qed

lemma build_tree_children_sorted:
  assumes "build_tree d tbl nm ps rn = Inr t" and "m \<in> set (nodes t)"
  shows "sorted (map node_name (node_children m))"
proof -
  from build_tree_nodes_ok[OF assms(1)] assms(2) have "node_ok tbl m" by blast
  then obtain tys where tys: "get_type_list (node_props m) = Inr tys"
    and ch: "map node_name (node_children m) = filter (\<lambda>x. x \<noteq> ''Tag'') tys"
    by (auto simp: node_ok_def split: sum.splits)
  from get_type_list_Inr(1)[OF tys] have "sorted tys" .
  then show ?thesis unfolding ch by (rule sorted_wrt_filter)
qed

lemma file_output_objects_sorted: "sorted (object_names (fst (file_output v d f)))"
proof -
  let ?out = "fst (snd (output_roots d f (sort_key fst (resources f)) []))"
  have "sorted (map fst (sort_key fst (resources f)))" by simp
  with file_output_roots_inv[of d f] have s: "sorted (object_names ?out)"
    unfolding roots_inv_def prod.case by blast
  from file_output_split[of v d f] obtain pre where
    pre: "\<forall>l \<in> set pre. class_name_of l = None"
    and c: "fst (file_output v d f) = pre \<or> fst (file_output v d f) = pre @ ?out"
    by blast
  from pre have po: "object_names pre = []" by (rule plain_objects)
  from c show ?thesis
  proof
    assume "fst (file_output v d f) = pre"
    with po show ?thesis by simp
  next
    assume "fst (file_output v d f) = pre @ ?out"
    with po s show ?thesis by simp
  qed
qed

lemma sort_key_same_dict:
  assumes "distinct (map fst xs)" and "distinct (map fst ys)" and "set xs = set ys"
  shows "sort_key fst xs = sort_key fst ys"
proof -
  let ?xs = "sort_key fst xs" and ?ys = "sort_key fst ys"
  have mx: "mset (map fst ?xs) = mset (map fst xs)" "mset (map fst ?ys) = mset (map fst ys)"
    by simp_all
  have dx: "distinct (map fst ?xs)" using mx(1) assms(1) by (metis mset_eq_imp_distinct_iff)
  have dy: "distinct (map fst ?ys)" using mx(2) assms(2) by (metis mset_eq_imp_distinct_iff)
  have "map fst ?xs = map fst ?ys"
  proof (rule sorted_distinct_set_unique)
    show "sorted (map fst ?xs)" by simp
    show "distinct (map fst ?xs)" by (rule dx)
    show "sorted (map fst ?ys)" by simp
    show "distinct (map fst ?ys)" by (rule dy)
    show "set (map fst ?xs) = set (map fst ?ys)" using assms(3) by simp
  qed
  then have keys: "map fst ?xs = map fst ?ys" .
  then have len: "length ?xs = length ?ys" by (metis length_map)
  show ?thesis
  proof (rule nth_equalityI[OF len])
    fix i assume i: "i < length ?xs"
    with len have j: "i < length ?ys" by simp
    from i have "?xs ! i \<in> set ?xs" by (rule nth_mem)
    then have a: "?xs ! i \<in> set ?ys" using assms(3) by simp
    from j have b: "?ys ! i \<in> set ?ys" by (rule nth_mem)
    from keys i j have k: "fst (?xs ! i) = fst (?ys ! i)"
      by (metis nth_map)
    from dy a b k show "?xs ! i = ?ys ! i"
      by (metis eq_key_imp_eq_value prod.collapse)
  qed
qed

text \<open>
  C9. The output of \<^verbatim>\<open>File.output\<close>, lines and error, does not depend on the order
  in which the dicts iterate: two groupings that are equal once every dict of the
  resources, the properties, the resource names, the field tables and the
  override document is put in key order give the same result. In that output the
  resources appear in ascending order of their names; in every node of a tree
  that \<^verbatim>\<open>build_tree\<close> returns the children, which \<^verbatim>\<open>output_tree\<close> walks in list
  order, are in ascending order of the referenced type name; and the entries that
  \<open>output_class\<close> prints are in ascending order of the field name.
\<close>

theorem output_deterministic_and_ordered:
  "(canon_file f = canon_file f' \<longrightarrow> file_output v d f = file_output v d f')
   \<and> sorted (object_names (fst (file_output v d f)))
   \<and> (build_tree depth tbl nm ps rn = Inr t \<longrightarrow>
        (\<forall>m \<in> set (nodes t). sorted (map node_name (node_children m))))
   \<and> sorted (field_keys (fst (output_class cn flds ov rn')))"
proof (intro conjI impI ballI)
  assume "canon_file f = canon_file f'"
  then have "file_output v d (canon_file f) = file_output v d (canon_file f')" by simp
  then show "file_output v d f = file_output v d f'" by (simp add: file_output_canon)
next
  show "sorted (object_names (fst (file_output v d f)))" by (rule file_output_objects_sorted)
next
  fix m
  assume "build_tree depth tbl nm ps rn = Inr t" and "m \<in> set (nodes t)"
  then show "sorted (map node_name (node_children m))" by (rule build_tree_children_sorted)
next
  show "sorted (field_keys (fst (output_class cn flds ov rn')))"
    by (rule output_class_fields_sorted)
qed

theorem output_deterministic_and_ordered_witness:
  "file_order1 \<noteq> file_order2
   \<and> canon_file file_order1 = canon_file file_order2
   \<and> file_output ''1.0'' 5 file_order1 = file_output ''1.0'' 5 file_order2
   \<and> snd (file_output ''1.0'' 5 file_order1) = None
   \<and> object_names (fst (file_output ''1.0'' 5 file_order1)) = [''Alpha'', ''Baz'']
   \<and> sorted (object_names (fst (file_output ''1.0'' 5 file_order1)))
   \<and> build_tree 5 (properties file_order1) ''Baz'' fields_baz (Some ''AWS::Foo::Baz'')
       = Inr (Node ''Baz'' fields_baz (Some ''AWS::Foo::Baz'')
                [Node ''Extra'' fields_extra None [], Node ''Shared'' fields_shared None []])
   \<and> sorted (map node_name (node_children
         (Node ''Baz'' fields_baz (Some ''AWS::Foo::Baz'')
            [Node ''Extra'' fields_extra None [], Node ''Shared'' fields_shared None []])))
   \<and> field_keys (fst (output_class ''Baz'' fields_baz ov_baz (Some ''AWS::Foo::Baz'')))
       = [''B'', ''Name'', ''Y'']
   \<and> sorted (field_keys (fst (output_class ''Baz'' fields_baz ov_baz (Some ''AWS::Foo::Baz''))))"
proof -
  let ?t = "Node ''Baz'' fields_baz (Some ''AWS::Foo::Baz'')
              [Node ''Extra'' fields_extra None [], Node ''Shared'' fields_shared None []]"
  note inst = output_deterministic_and_ordered[where f = file_order1 and f' = file_order2
      and v = "''1.0''" and d = 5 and depth = 5 and tbl = "properties file_order1"
      and nm = "''Baz''" and ps = fields_baz and rn = "Some ''AWS::Foo::Baz''" and t = ?t
      and cn = "''Baz''" and flds = fields_baz and ov = ov_baz
      and rn' = "Some ''AWS::Foo::Baz''"]
  have c: "canon_file file_order1 = canon_file file_order2"
    by code_simp
  have n: "file_order1 \<noteq> file_order2"
    by code_simp
  have e: "snd (file_output ''1.0'' 5 file_order1) = None"
    by code_simp
  have o: "object_names (fst (file_output ''1.0'' 5 file_order1)) = [''Alpha'', ''Baz'']"
    by code_simp
  have b: "build_tree 5 (properties file_order1) ''Baz'' fields_baz (Some ''AWS::Foo::Baz'')
             = Inr ?t"
    by code_simp
  have k: "field_keys (fst (output_class ''Baz'' fields_baz ov_baz (Some ''AWS::Foo::Baz'')))
             = [''B'', ''Name'', ''Y'']"
    by code_simp
  have m: "?t \<in> set (nodes ?t)" by simp
  from inst c have a1: "file_output ''1.0'' 5 file_order1 = file_output ''1.0'' 5 file_order2"
    by blast
  from inst have a2: "sorted (object_names (fst (file_output ''1.0'' 5 file_order1)))"
    by blast
  from inst b m have a3: "sorted (map node_name (node_children ?t))"
    by blast
  from inst have a4:
    "sorted (field_keys (fst (output_class ''Baz'' fields_baz ov_baz (Some ''AWS::Foo::Baz''))))"
    by blast
  from n c a1 e o a2 b a3 k a4 show ?thesis by blast
qed

end
